theory Spec2Isabelle
  imports Complex_Main
begin

section \<open>Python values\<close>

text \<open>
  The validator works on untyped trees: a schema loaded from YAML or JSON, or built by
  hand, and a document decoded by the JSON decoder. A finite float is modelled by the
  rational number it denotes (the code only compares numbers and truncates them, and
  Python does both exactly); the three non-finite floats are separate constructors.
  A string is a list of characters, one \<^typ>\<open>char\<close> per code point. A dict is an
  association list in insertion order, with string keys, as JSON objects have.
\<close>

datatype pyfloat = Finite rat | PosInf | NegInf | NaN

datatype pyval =
    PNone
  | PBool bool
  | PInt int
  | PFloat pyfloat
  | PStr string
  | PList "pyval list"
  | PTuple "pyval list"
  | PDict "(string \<times> pyval) list"

type_synonym pydict = "(string \<times> pyval) list"

text \<open>
  Exceptions. \<open>ValidationError\<close> and \<open>ValidationWarning\<close> carry a path and a message.
  \<open>ValueError\<close> carries its argument tuple (the converter builds one from a path and a
  message). The exceptions raised by the interpreter itself carry no payload here;
  \<open>RegexError\<close> and \<open>JSONDecodeError\<close> are what the regular expression engine and the
  JSON decoder, both parameters of the model, may raise.
\<close>

datatype pyexc =
    ValidationError string string
  | ValidationWarning string string
  | ValueError "string list"
  | TypeError
  | KeyError
  | IndexError
  | AttributeError
  | OverflowError
  | AssertionError
  | RegexError
  | JSONDecodeError

record diagnostics =
  errors :: "pyexc list"
  warnings :: "pyexc list"

definition add_error :: "pyexc \<Rightarrow> diagnostics \<Rightarrow> diagnostics" where
  "add_error e c = c\<lparr>errors := errors c @ [e]\<rparr>"

definition add_warning :: "pyexc \<Rightarrow> diagnostics \<Rightarrow> diagnostics" where
  "add_warning w c = c\<lparr>warnings := warnings c @ [w]\<rparr>"

subsection \<open>Primitive operations of the language\<close>

text \<open>Truth value of an object, as \<open>if x:\<close> and \<open>not x\<close> test it.\<close>

fun truthy :: "pyval \<Rightarrow> bool" where
  "truthy PNone = False"
| "truthy (PBool b) = b"
| "truthy (PInt i) = (i \<noteq> 0)"
| "truthy (PFloat f) = (f \<noteq> Finite 0)"
| "truthy (PStr s) = (s \<noteq> [])"
| "truthy (PList xs) = (xs \<noteq> [])"
| "truthy (PTuple xs) = (xs \<noteq> [])"
| "truthy (PDict d) = (d \<noteq> [])"

text \<open>\<open>type(x) in (int, float)\<close>, \<open>type(x) is float\<close>, \<open>type(x) is bool\<close>: exact types, so
  a bool is not a number here.\<close>

fun is_number :: "pyval \<Rightarrow> bool" where
  "is_number (PInt i) = True"
| "is_number (PFloat f) = True"
| "is_number v = False"

fun is_float :: "pyval \<Rightarrow> bool" where
  "is_float (PFloat f) = True"
| "is_float v = False"

fun is_bool :: "pyval \<Rightarrow> bool" where
  "is_bool (PBool b) = True"
| "is_bool v = False"

text \<open>\<open>d.get(k)\<close> on a dict: the stored value, or \<open>None\<close>. \<open>k in d\<close> is
  \<open>map_of d k \<noteq> None\<close>.\<close>

definition dget :: "pydict \<Rightarrow> string \<Rightarrow> pyval" where
  "dget d k = (case map_of d k of Some v \<Rightarrow> v | None \<Rightarrow> PNone)"

definition has_key :: "pydict \<Rightarrow> string \<Rightarrow> bool" where
  "has_key d k = (map_of d k \<noteq> None)"

text \<open>\<open>d[k]\<close> on a dict: the stored value, or \<open>KeyError\<close>.\<close>

definition dgetitem :: "pydict \<Rightarrow> string \<Rightarrow> pyexc + pyval" where
  "dgetitem d k = (case map_of d k of Some v \<Rightarrow> Inr v | None \<Rightarrow> Inl KeyError)"

text \<open>Numbers for comparison: a bool compares as 0 or 1.\<close>

fun num_of :: "pyval \<Rightarrow> pyfloat option" where
  "num_of (PBool b) = Some (Finite (if b then 1 else 0))"
| "num_of (PInt i) = Some (Finite (of_int i))"
| "num_of (PFloat f) = Some f"
| "num_of v = None"

fun float_lt :: "pyfloat \<Rightarrow> pyfloat \<Rightarrow> bool" where
  "float_lt (Finite a) (Finite b) = (a < b)"
| "float_lt (Finite a) PosInf = True"
| "float_lt NegInf (Finite b) = True"
| "float_lt NegInf PosInf = True"
| "float_lt x y = False"

fun float_le :: "pyfloat \<Rightarrow> pyfloat \<Rightarrow> bool" where
  "float_le (Finite a) (Finite b) = (a \<le> b)"
| "float_le NaN y = False"
| "float_le x NaN = False"
| "float_le NegInf y = True"
| "float_le x PosInf = True"
| "float_le x y = False"

fun str_lt :: "string \<Rightarrow> string \<Rightarrow> bool" where
  "str_lt [] [] = False"
| "str_lt [] (y # ys) = True"
| "str_lt (x # xs) [] = False"
| "str_lt (x # xs) (y # ys) =
     ((of_char x :: nat) < of_char y \<or> (x = y \<and> str_lt xs ys))"

fun str_le :: "string \<Rightarrow> string \<Rightarrow> bool" where
  "str_le s t = (s = t \<or> str_lt s t)"

text \<open>\<open>a == b\<close>. Numbers (a bool counts as 0 or 1) are equal when their values are, and
  a NaN equals nothing; strings and \<open>None\<close> are equal to themselves; two lists (or two
  tuples) are equal when they have the same length and equal items; two dicts are equal
  when they have the same keys with equal values; values of different types are unequal.
  Values are trees here: no object occurs twice, so the shortcut that the interpreter
  takes for one and the same object never applies.\<close>

fun float_eq :: "pyfloat \<Rightarrow> pyfloat \<Rightarrow> bool" where
  "float_eq NaN y = False"
| "float_eq x NaN = False"
| "float_eq x y = (x = y)"

fun py_eq :: "pyval \<Rightarrow> pyval \<Rightarrow> bool"
  and seq_eq :: "pyval list \<Rightarrow> pyval list \<Rightarrow> bool"
  and items_eq :: "pydict \<Rightarrow> pydict \<Rightarrow> bool" where
  "py_eq a b =
     (case (num_of a, num_of b) of
        (Some x, Some y) \<Rightarrow> float_eq x y
      | _ \<Rightarrow>
        (case (a, b) of
           (PNone, PNone) \<Rightarrow> True
         | (PStr s, PStr t) \<Rightarrow> s = t
         | (PList xs, PList ys) \<Rightarrow> seq_eq xs ys
         | (PTuple xs, PTuple ys) \<Rightarrow> seq_eq xs ys
         | (PDict d, PDict e) \<Rightarrow> length d = length e \<and> items_eq d e
         | _ \<Rightarrow> False))"
| "seq_eq [] ys = (ys = [])"
| "seq_eq (x # xs) [] = False"
| "seq_eq (x # xs) (y # ys) = (py_eq x y \<and> seq_eq xs ys)"
| "items_eq [] e = True"
| "items_eq ((k, v) # d) e =
     ((case map_of e k of Some w \<Rightarrow> py_eq v w | None \<Rightarrow> False) \<and> items_eq d e)"

text \<open>\<open>a < b\<close> (\<open>strict\<close>) and \<open>a <= b\<close>. Numbers compare by value, strings by code
  points. Two lists (or two tuples) compare at their first pair of unequal items, with
  the same operator, which may raise in turn; when one is a prefix of the other they
  compare by length. Every other pair of types is a \<open>TypeError\<close>.\<close>

fun py_cmp :: "bool \<Rightarrow> pyval \<Rightarrow> pyval \<Rightarrow> pyexc + bool"
  and seq_cmp :: "bool \<Rightarrow> pyval list \<Rightarrow> pyval list \<Rightarrow> pyexc + bool" where
  "py_cmp strict a b =
     (case (num_of a, num_of b) of
        (Some x, Some y) \<Rightarrow> Inr (if strict then float_lt x y else float_le x y)
      | _ \<Rightarrow>
        (case (a, b) of
           (PStr s, PStr t) \<Rightarrow> Inr (if strict then str_lt s t else str_le s t)
         | (PList xs, PList ys) \<Rightarrow> seq_cmp strict xs ys
         | (PTuple xs, PTuple ys) \<Rightarrow> seq_cmp strict xs ys
         | _ \<Rightarrow> Inl TypeError))"
| "seq_cmp strict [] ys = Inr (if strict then ys \<noteq> [] else True)"
| "seq_cmp strict (x # xs) [] = Inr False"
| "seq_cmp strict (x # xs) (y # ys) =
     (if py_eq x y then seq_cmp strict xs ys else py_cmp strict x y)"

declare py_eq.simps(1) [simp del] py_cmp.simps(1) [simp del]

definition py_lt :: "pyval \<Rightarrow> pyval \<Rightarrow> pyexc + bool" where
  "py_lt a b = py_cmp True a b"

definition py_le :: "pyval \<Rightarrow> pyval \<Rightarrow> pyexc + bool" where
  "py_le a b = py_cmp False a b"

definition py_gt :: "pyval \<Rightarrow> pyval \<Rightarrow> pyexc + bool" where
  "py_gt a b = py_lt b a"

definition py_ge :: "pyval \<Rightarrow> pyval \<Rightarrow> pyexc + bool" where
  "py_ge a b = py_le b a"

text \<open>\<open>str(n)\<close> for a loop index.\<close>

definition digit :: "nat \<Rightarrow> char" where
  "digit n = ''0123456789'' ! n"

fun str_of_nat :: "nat \<Rightarrow> string" where
  "str_of_nat n = (if n < 10 then [digit n] else str_of_nat (n div 10) @ [digit (n mod 10)])"

text \<open>
  \<open>re.match(r"^[a-z]+(-[a-z]+)*$", s)\<close>: one or more groups of lower-case letters
  separated by single hyphens. The flag of \<open>ident_body\<close> says whether the current group
  already has a letter. In Python \<open>$\<close> also matches just before a newline that ends the
  string.
\<close>

definition lower :: "char \<Rightarrow> bool" where
  "lower ch = (97 \<le> (of_char ch :: nat) \<and> (of_char ch :: nat) \<le> 122)"

fun ident_body :: "string \<Rightarrow> bool \<Rightarrow> bool" where
  "ident_body [] seen = seen"
| "ident_body (ch # cs) seen =
     (if lower ch then ident_body cs True
      else if ch = CHR ''-'' \<and> seen then ident_body cs False
      else False)"

definition ident_match :: "string \<Rightarrow> bool" where
  "ident_match s =
     (ident_body s False \<or> (s \<noteq> [] \<and> last s = CHR 0x0A \<and> ident_body (butlast s) False))"

text \<open>Whether an object can be hashed, as a lookup in a dict's keys needs.\<close>

fun hashable :: "pyval \<Rightarrow> bool" where
  "hashable (PList xs) = False"
| "hashable (PDict d) = False"
| "hashable (PTuple xs) = list_all hashable xs"
| "hashable v = True"


definition is_str :: "pyval \<Rightarrow> bool" where
  "is_str v = (case v of PStr s \<Rightarrow> True | _ \<Rightarrow> False)"

text \<open>A key between single quotes, as the f-strings of the messages print it.\<close>

definition quoted :: "string \<Rightarrow> string" where
  "quoted k = CHR 0x27 # k @ [CHR 0x27]"

section \<open>The schema validator (specs.py)\<close>

text \<open>
  Every function takes the collectors and returns them updated, next to its result:
  \<open>Inl\<close> an exception that escapes the function, \<open>Inr\<close> a normal return. The source builds a
  \<open>set\<close> of the unexpected keys and reports \<open>set.pop()\<close>, an arbitrary member: the
  choice is the parameter \<open>pop\<close>, applied to the unexpected keys in insertion order.
\<close>

type_synonym 'a result = "(pyexc + 'a) \<times> diagnostics"

definition validate_minimum_or_maximum_property ::
  "(string list \<Rightarrow> string) \<Rightarrow> string \<Rightarrow> string \<Rightarrow> pyval \<Rightarrow> pyexc list
    \<Rightarrow> (pyval \<times> pyval) option \<times> pyexc list" where
  "validate_minimum_or_maximum_property pop name path value errs =
     (if is_number value then (Some (PBool False, value), errs)
      else case value of
        PDict d \<Rightarrow>
          (let extra_properties = filter (\<lambda>k. k \<notin> {''exclusive'', ''value''}) (map fst d) in
           if extra_properties \<noteq> [] then
             (None, errs @ [ValidationError (path @ ''.'' @ name)
                              (quoted (pop extra_properties) @ '' property is unexpected'')])
           else
             let exclusive = dget d ''exclusive'';
                 bad = (truthy exclusive \<and> \<not> is_bool exclusive);
                 errs1 = (if bad
                          then errs @ [ValidationError (path @ ''.'' @ name @ ''.exclusive'')
                                         ''value must be a bool'']
                          else errs);
                 exclusive1 = (if bad then exclusive else PBool False);
                 bound_value = dget d ''value'';
                 errs2 = (if bound_value = PNone
                          then errs1 @ [ValidationError (path @ ''.'' @ name)
                                          (quoted ''value'' @ '' property is missing'')]
                          else if \<not> is_number bound_value
                          then errs1 @ [ValidationError (path @ ''.'' @ name @ ''.value'')
                                          ''value must be a number'']
                          else errs1)
             in (Some (exclusive1, bound_value), errs2))
      | _ \<Rightarrow>
          (None, errs @ [ValidationError (path @ ''.'' @ name)
                           ''value must be either a number or a dict'']))"

text \<open>The three checks that \<open>validate_length_property\<close> makes on \<open>minimum\<close>, and again on
  \<open>maximum\<close>; \<open>path\<close> already ends in \<open>.length\<close>.\<close>

definition length_bound_checks :: "string \<Rightarrow> string \<Rightarrow> pyval \<Rightarrow> diagnostics \<Rightarrow> unit result" where
  "length_bound_checks path name bound c =
     (if truthy bound then
        let c1 = (if \<not> is_number bound
                  then add_error (ValidationError (path @ ''.'' @ name) ''value must be a number'') c
                  else c);
            c2 = (if is_float bound
                  then add_warning (ValidationWarning path ''should be an integer (got float)'') c1
                  else c1)
        in (case py_lt bound (PInt 0) of
              Inl e \<Rightarrow> (Inl e, c2)
            | Inr neg \<Rightarrow>
                (Inr (), if neg
                         then add_error (ValidationError (path @ ''.'' @ name)
                                           ''must be greater or equal to zero'') c2
                         else c2))
      else (Inr (), c))"

definition validate_length_property ::
  "(string list \<Rightarrow> string) \<Rightarrow> string \<Rightarrow> pyval \<Rightarrow> diagnostics \<Rightarrow> unit result" where
  "validate_length_property pop path0 value c =
     (let path = path0 @ ''.length'' in
      if is_number value then
        (case py_lt value (PInt 0) of
           Inl e \<Rightarrow> (Inl e, c)
         | Inr neg \<Rightarrow>
             let c1 = (if neg
                       then add_error (ValidationError path ''must be greater or equal to zero'') c
                       else c);
                 c2 = (if is_float value
                       then add_warning (ValidationWarning path ''should be an integer (got float)'') c1
                       else c1)
             in (Inr (), c2))
      else case value of
        PDict d \<Rightarrow>
          (let extra_properties = filter (\<lambda>k. k \<notin> {''minimum'', ''maximum''}) (map fst d) in
           if extra_properties \<noteq> [] then
             (Inr (), add_error (ValidationError path
                                   (quoted (pop extra_properties) @ '' property is unexpected'')) c)
           else
             let minimum = dget d ''minimum'' in
             case length_bound_checks path ''minimum'' minimum c of
               (Inl e, c1) \<Rightarrow> (Inl e, c1)
             | (Inr _, c1) \<Rightarrow>
                 let maximum = dget d ''maximum'' in
                 case length_bound_checks path ''maximum'' maximum c1 of
                   (Inl e, c2) \<Rightarrow> (Inl e, c2)
                 | (Inr _, c2) \<Rightarrow>
                     if minimum \<noteq> PNone \<and> maximum \<noteq> PNone then
                       (case py_gt minimum maximum of
                          Inl e \<Rightarrow> (Inl e, c2)
                        | Inr gt \<Rightarrow>
                            (Inr (), if gt
                                     then add_error (ValidationError path
                                                       ''minimum must be lower than maximum'') c2
                                     else c2))
                     else (Inr (), c2))
      | _ \<Rightarrow> (Inr (), add_error (ValidationError path ''value must be either a number or a dict'') c))"

definition validate_flag_type :: "string \<Rightarrow> pydict \<Rightarrow> diagnostics \<Rightarrow> unit result" where
  "validate_flag_type path block c = (Inr (), c)"

text \<open>
  What \<open>validate_integer_type\<close> and \<open>validate_decimal_type\<close> do for \<open>minimum\<close>, and again
  for \<open>maximum\<close>: validate the property when the key is present and, for the integer
  kind only (\<open>warn\<close>), warn when the value read is a float.
\<close>

definition checked_bound ::
  "bool \<Rightarrow> (string list \<Rightarrow> string) \<Rightarrow> string \<Rightarrow> string \<Rightarrow> pydict \<Rightarrow> diagnostics
    \<Rightarrow> (pyval \<times> pyval) option \<times> diagnostics" where
  "checked_bound warn pop name path block c =
     (if has_key block name then
        let (bound, errs) =
              validate_minimum_or_maximum_property pop name path (dget block name) (errors c);
            c1 = c\<lparr>errors := errs\<rparr>
        in (bound,
            case bound of
              Some (exclusive, v) \<Rightarrow>
                if warn \<and> is_float v
                then add_warning (ValidationWarning (path @ ''.'' @ name)
                                    ''should be an integer (got float)'') c1
                else c1
            | None \<Rightarrow> c1)
      else (None, c))"

definition minimum_maximum_order ::
  "string \<Rightarrow> (pyval \<times> pyval) option \<Rightarrow> (pyval \<times> pyval) option \<Rightarrow> diagnostics \<Rightarrow> unit result" where
  "minimum_maximum_order path minimum maximum c =
     (case (minimum, maximum) of
        (Some (emin, vmin), Some (emax, vmax)) \<Rightarrow>
          (case py_lt vmax vmin of
             Inl e \<Rightarrow> (Inl e, c)
           | Inr lt \<Rightarrow>
               (Inr (), if lt
                        then add_error (ValidationError path ''minimum must be lower than maximum'') c
                        else c))
      | _ \<Rightarrow> (Inr (), c))"

definition validate_integer_type ::
  "(string list \<Rightarrow> string) \<Rightarrow> string \<Rightarrow> pydict \<Rightarrow> diagnostics \<Rightarrow> unit result" where
  "validate_integer_type pop path block c =
     (let (minimum, c1) = checked_bound True pop ''minimum'' path block c;
          (maximum, c2) = checked_bound True pop ''maximum'' path block c1
      in minimum_maximum_order path minimum maximum c2)"

definition validate_decimal_type ::
  "(string list \<Rightarrow> string) \<Rightarrow> string \<Rightarrow> pydict \<Rightarrow> diagnostics \<Rightarrow> unit result" where
  "validate_decimal_type pop path block c =
     (let (minimum, c1) = checked_bound False pop ''minimum'' path block c;
          (maximum, c2) = checked_bound False pop ''maximum'' path block c1
      in minimum_maximum_order path minimum maximum c2)"

definition validate_string_type ::
  "(string list \<Rightarrow> string) \<Rightarrow> string \<Rightarrow> pydict \<Rightarrow> diagnostics \<Rightarrow> unit result" where
  "validate_string_type pop path block c =
     (case (if has_key block ''length''
            then validate_length_property pop path (dget block ''length'') c
            else (Inr (), c)) of
        (Inl e, c1) \<Rightarrow> (Inl e, c1)
      | (Inr _, c1) \<Rightarrow>
          let pattern = dget block ''pattern'' in
          (Inr (), if pattern \<noteq> PNone \<and> \<not> is_str pattern
                   then add_error (ValidationError (path @ ''.pattern'') ''value must be a string'') c1
                   else c1))"

text \<open>The loop of \<open>validate_enum_type\<close> over the values; \<open>processed\<close> is
  \<open>processed_values\<close>. \<open>re.match\<close> raises \<open>TypeError\<close> on a value that is not a string.\<close>

fun enum_values_loop :: "string \<Rightarrow> pyval list \<Rightarrow> string list \<Rightarrow> diagnostics \<Rightarrow> unit result" where
  "enum_values_loop path [] processed c = (Inr (), c)"
| "enum_values_loop path (value # rest) processed c =
     (case value of
        PStr s \<Rightarrow>
          if \<not> ident_match s then
            enum_values_loop path rest processed
              (add_error (ValidationError (path @ ''.values'')
                            (quoted s @ '' is an incorrect value'')) c)
          else if s \<in> set processed then
            enum_values_loop path rest processed
              (add_error (ValidationError (path @ ''.values'')
                            (quoted s @ '' value is duplicated'')) c)
          else enum_values_loop path rest (processed @ [s]) c
      | _ \<Rightarrow> (Inl TypeError, c))"

definition validate_enum_type :: "string \<Rightarrow> pydict \<Rightarrow> diagnostics \<Rightarrow> unit result" where
  "validate_enum_type path block c =
     (let values = dget block ''values'' in
      if values = PNone then
        (Inr (), add_error (ValidationError path (quoted ''values'' @ '' property is missing'')) c)
      else case values of
        PList vs \<Rightarrow>
          if length vs = 0 then
            (Inr (), add_error (ValidationError (path @ ''.values'')
                                  ''must contain at least one value'') c)
          else enum_values_loop path vs [] c
      | _ \<Rightarrow> (Inr (), add_error (ValidationError (path @ ''.values'') ''value must be a list'') c))"

text \<open>
  The list, tuple and map kinds call \<open>validate_block\<close> on the blocks nested in them. They
  are defined before it, with the recursive call as the parameter \<open>vb\<close>.
\<close>

definition validate_list_type ::
  "(string \<Rightarrow> pyval \<Rightarrow> diagnostics \<Rightarrow> unit result) \<Rightarrow> (string list \<Rightarrow> string)
    \<Rightarrow> string \<Rightarrow> pydict \<Rightarrow> diagnostics \<Rightarrow> unit result" where
  "validate_list_type vb pop path block c =
     (let value = dget block ''value'' in
      if \<not> truthy value then
        (Inr (), add_error (ValidationError path (quoted ''value'' @ '' property is missing'')) c)
      else case vb (path @ ''.[]'') value c of
        (Inl e, c1) \<Rightarrow> (Inl e, c1)
      | (Inr _, c1) \<Rightarrow>
          if has_key block ''length''
          then validate_length_property pop path (dget block ''length'') c1
          else (Inr (), c1))"

fun tuple_values_loop ::
  "(string \<Rightarrow> pyval \<Rightarrow> diagnostics \<Rightarrow> unit result) \<Rightarrow> string \<Rightarrow> nat \<Rightarrow> pyval list
    \<Rightarrow> diagnostics \<Rightarrow> unit result" where
  "tuple_values_loop vb path index [] c = (Inr (), c)"
| "tuple_values_loop vb path index (value # rest) c =
     (case vb (path @ ''.('' @ str_of_nat index @ '')'') value c of
        (Inl e, c1) \<Rightarrow> (Inl e, c1)
      | (Inr _, c1) \<Rightarrow> tuple_values_loop vb path (Suc index) rest c1)"

definition validate_tuple_type ::
  "(string \<Rightarrow> pyval \<Rightarrow> diagnostics \<Rightarrow> unit result) \<Rightarrow> string \<Rightarrow> pydict \<Rightarrow> diagnostics
    \<Rightarrow> unit result" where
  "validate_tuple_type vb path block c =
     (let values = dget block ''values'' in
      if values = PNone then
        (Inr (), add_error (ValidationError path (quoted ''values'' @ '' property is missing'')) c)
      else case values of
        PList vs \<Rightarrow>
          if length vs = 0 then
            (Inr (), add_error (ValidationError (path @ ''.values'')
                                  ''must contain at least one value'') c)
          else tuple_values_loop vb path 0 vs c
      | _ \<Rightarrow> (Inr (), add_error (ValidationError (path @ ''.values'') ''value must be a list'') c))"

fun map_fields_loop ::
  "(string \<Rightarrow> pyval \<Rightarrow> diagnostics \<Rightarrow> unit result) \<Rightarrow> string \<Rightarrow> (string \<times> pyval) list
    \<Rightarrow> diagnostics \<Rightarrow> unit result" where
  "map_fields_loop vb path [] c = (Inr (), c)"
| "map_fields_loop vb path ((key, value) # rest) c =
     (if \<not> ident_match key then
        map_fields_loop vb path rest
          (add_error (ValidationError (path @ ''.fields'')
                        (quoted key @ '' is an incorrect key name'')) c)
      else case vb (path @ ''.'' @ key) value c of
        (Inl e, c1) \<Rightarrow> (Inl e, c1)
      | (Inr _, c1) \<Rightarrow> map_fields_loop vb path rest c1)"

definition validate_map_type ::
  "(string \<Rightarrow> pyval \<Rightarrow> diagnostics \<Rightarrow> unit result) \<Rightarrow> string \<Rightarrow> pydict \<Rightarrow> diagnostics
    \<Rightarrow> unit result" where
  "validate_map_type vb path block c =
     (let fields = dget block ''fields'' in
      if fields = PNone then
        (Inr (), add_error (ValidationError path (quoted ''fields'' @ '' property is missing'')) c)
      else case fields of
        PDict fs \<Rightarrow>
          if length fs = 0 then
            (Inr (), add_error (ValidationError (path @ ''.fields'')
                                  ''must contain at least one field'') c)
          else map_fields_loop vb path fs c
      | _ \<Rightarrow> (Inr (), add_error (ValidationError (path @ ''.fields'') ''value must be a dict'') c))"

text \<open>The table \<open>validators\<close>: the kinds, and the properties each kind accepts.\<close>

definition kinds :: "string list" where
  "kinds = [''flag'', ''integer'', ''decimal'', ''string'', ''enum'', ''list'', ''tuple'', ''map'']"

definition whitelist :: "string \<Rightarrow> string list" where
  "whitelist kind =
     (if kind = ''flag'' then []
      else if kind = ''integer'' then [''minimum'', ''maximum'']
      else if kind = ''decimal'' then [''minimum'', ''maximum'']
      else if kind = ''string'' then [''length'', ''pattern'']
      else if kind = ''enum'' then [''values'']
      else if kind = ''list'' then [''value'', ''length'']
      else if kind = ''tuple'' then [''values'']
      else if kind = ''map'' then [''fields'']
      else [])"

definition validate_kind ::
  "(string \<Rightarrow> pyval \<Rightarrow> diagnostics \<Rightarrow> unit result) \<Rightarrow> (string list \<Rightarrow> string) \<Rightarrow> string
    \<Rightarrow> string \<Rightarrow> pydict \<Rightarrow> diagnostics \<Rightarrow> unit result" where
  "validate_kind vb pop kind path block c =
     (if kind = ''flag'' then validate_flag_type path block c
      else if kind = ''integer'' then validate_integer_type pop path block c
      else if kind = ''decimal'' then validate_decimal_type pop path block c
      else if kind = ''string'' then validate_string_type pop path block c
      else if kind = ''enum'' then validate_enum_type path block c
      else if kind = ''list'' then validate_list_type vb pop path block c
      else if kind = ''tuple'' then validate_tuple_type vb path block c
      else validate_map_type vb path block c)"


subsection \<open>The recursive walk\<close>

text \<open>
  \<open>validate_block\<close> recurses into the blocks stored in the block it is given. The lemmas
  below say that the three recursive kinds only call \<open>vb\<close> on values smaller than the
  block, which is what the termination proof needs.
\<close>

lemma size_dict_value: "(k, v) \<in> set d \<Longrightarrow> size v < size (PDict d)"
  by (induction d) auto

lemma size_list_elem: "v \<in> set xs \<Longrightarrow> size v < size (PList xs)"
  by (induction xs) auto

lemma size_dget: "dget d k \<noteq> PNone \<Longrightarrow> size (dget d k) < size (PDict d)"
  by (auto simp: dget_def split: option.splits dest!: map_of_SomeD size_dict_value)

lemma tuple_values_loop_eq:
  "(\<And>p v c. v \<in> set vs \<Longrightarrow> vb p v c = vb' p v c)
   \<Longrightarrow> tuple_values_loop vb path index vs c = tuple_values_loop vb' path index vs c"
proof (induction vs arbitrary: index c)
  case Nil
  show ?case by simp
next
  case (Cons v vs)
  have h: "vb (path @ ''.('' @ str_of_nat index @ '')'') v c = vb' (path @ ''.('' @ str_of_nat index @ '')'') v c"
    using Cons.prems by simp
  have t: "\<And>i c1. tuple_values_loop vb path i vs c1 = tuple_values_loop vb' path i vs c1"
    using Cons.IH Cons.prems by simp
  show ?case by (simp only: tuple_values_loop.simps h t)
qed

lemma map_fields_loop_eq:
  "(\<And>p v c. v \<in> snd ` set fs \<Longrightarrow> vb p v c = vb' p v c)
   \<Longrightarrow> map_fields_loop vb path fs c = map_fields_loop vb' path fs c"
proof (induction fs arbitrary: c)
  case Nil
  show ?case by simp
next
  case (Cons f fs)
  obtain key v where f: "f = (key, v)" by (cases f)
  have h: "vb (path @ ''.'' @ key) v c = vb' (path @ ''.'' @ key) v c"
    using Cons.prems f by simp
  have t: "\<And>c1. map_fields_loop vb path fs c1 = map_fields_loop vb' path fs c1"
    using Cons.IH Cons.prems by simp
  show ?case unfolding f by (simp only: map_fields_loop.simps h t)
qed

lemma validate_kind_cong [fundef_cong]:
  assumes "pop = pop'" "kind = kind'" "path = path'" "block = block'" "c = c'"
    and "\<And>p v c. size v < size (PDict block') \<Longrightarrow> vb p v c = vb' p v c"
  shows "validate_kind vb pop kind path block c = validate_kind vb' pop' kind' path' block' c'"
proof -
  have l: "validate_list_type vb pop' path' block' c' = validate_list_type vb' pop' path' block' c'"
  proof (cases "truthy (dget block' ''value'')")
    case True
    then have "dget block' ''value'' \<noteq> PNone" by auto
    then have "vb (path' @ ''.[]'') (dget block' ''value'') c' = vb' (path' @ ''.[]'') (dget block' ''value'') c'"
      using assms(6) size_dget by blast
    then show ?thesis by (simp add: validate_list_type_def Let_def)
  qed (simp add: validate_list_type_def Let_def)
  have t: "validate_tuple_type vb path' block' c' = validate_tuple_type vb' path' block' c'"
  proof (cases "dget block' ''values''")
    case (PList vs)
    have "\<And>v. v \<in> set vs \<Longrightarrow> size v < size (PDict block')"
      using size_dget[of block' "''values''"] size_list_elem PList by fastforce
    then have "tuple_values_loop vb path' 0 vs c' = tuple_values_loop vb' path' 0 vs c'"
      using assms(6) by (intro tuple_values_loop_eq) auto
    then show ?thesis using PList by (simp add: validate_tuple_type_def Let_def)
  qed (simp_all add: validate_tuple_type_def Let_def)
  have m: "validate_map_type vb path' block' c' = validate_map_type vb' path' block' c'"
  proof (cases "dget block' ''fields''")
    case (PDict fs)
    have "\<And>v. v \<in> snd ` set fs \<Longrightarrow> size v < size (PDict block')"
      using size_dget[of block' "''fields''"] size_dict_value PDict by fastforce
    then have "map_fields_loop vb path' fs c' = map_fields_loop vb' path' fs c'"
      using assms(6) by (intro map_fields_loop_eq) auto
    then show ?thesis using PDict by (simp add: validate_map_type_def Let_def)
  qed (simp_all add: validate_map_type_def Let_def)
  show ?thesis using assms(1-5) l t m by (simp add: validate_kind_def)
qed



function validate_block ::
  "(string list \<Rightarrow> string) \<Rightarrow> string \<Rightarrow> pyval \<Rightarrow> diagnostics \<Rightarrow> unit result" where
  "validate_block pop path block c =
     (case block of
        PDict d \<Rightarrow>
          (let type1 = dget d ''type'' in
           if \<not> truthy type1 then
             (Inr (), add_error (ValidationError path (quoted ''type'' @ '' property is missing'')) c)
           else if \<not> hashable type1 then (Inl TypeError, c)
           else case type1 of
             PStr kind \<Rightarrow>
               if kind \<notin> set kinds then
                 (Inr (), add_error (ValidationError path
                                       (''value of '' @ quoted ''type'' @ '' is incorrect'')) c)
               else
                 let extra_properties =
                       filter (\<lambda>k. k \<notin> set (whitelist kind) \<and> k \<notin> {''type'', ''option''}) (map fst d);
                     c1 = (if extra_properties \<noteq> []
                           then add_error (ValidationError path
                                  (quoted (pop extra_properties) @ '' property is unexpected'')) c
                           else c)
                 in (case validate_kind (validate_block pop) pop kind path d c1 of
                       (Inl e, c2) \<Rightarrow> (Inl e, c2)
                     | (Inr _, c2) \<Rightarrow>
                         (Inr (), if has_key d ''option'' \<and> \<not> is_bool (dget d ''option'')
                                  then add_error (ValidationError (path @ ''.option'')
                                                    ''value must be a bool'') c2
                                  else c2))
           | _ \<Rightarrow>
               (Inr (), add_error (ValidationError path
                                     (''value of '' @ quoted ''type'' @ '' is incorrect'')) c))
      | _ \<Rightarrow> (Inr (), add_error (ValidationError path ''value must be a dict'') c))"
  by pat_completeness auto
termination
  by (relation "measure (\<lambda>(pop, path, block, c). size block)") auto

declare validate_block.simps [simp del]


definition validate_root_block ::
  "(string list \<Rightarrow> string) \<Rightarrow> pyval \<Rightarrow> diagnostics \<Rightarrow> unit result" where
  "validate_root_block pop block c =
     (case block of
        PDict d \<Rightarrow> validate_block pop ''root'' block c
      | _ \<Rightarrow> (Inr (), add_error (ValidationError ''root'' ''root value must be a dict'') c))"

text \<open>
  \<open>validate_specs\<close>: both collectors are optional arguments and must be empty when given.
  An \<open>errors\<close> list that is given selects lazy validation. The result holds the content of
  the two lists after the call, which in lazy mode are the caller's own lists.
\<close>

definition given :: "pyexc list option \<Rightarrow> pyexc list" where
  "given arg = (case arg of None \<Rightarrow> [] | Some l \<Rightarrow> l)"

definition validate_specs ::
  "(string list \<Rightarrow> string) \<Rightarrow> pyval \<Rightarrow> pyexc list option \<Rightarrow> pyexc list option \<Rightarrow> unit result" where
  "validate_specs pop specs errors_arg warnings_arg =
     (if \<not> (errors_arg = None \<or> errors_arg = Some []) \<or>
         \<not> (warnings_arg = None \<or> warnings_arg = Some [])
      then (Inl AssertionError, \<lparr>errors = given errors_arg, warnings = given warnings_arg\<rparr>)
      else
        let lazy_validation = (errors_arg \<noteq> None) in
        case validate_root_block pop specs \<lparr>errors = [], warnings = []\<rparr> of
          (Inl e, c) \<Rightarrow> (Inl e, c)
        | (Inr _, c) \<Rightarrow>
            if \<not> lazy_validation \<and> length (errors c) > 0
            then (Inl (errors c ! 0), c)
            else (Inr (), c))"

section \<open>The document converter (document.py)\<close>

text \<open>
  The functions of this module receive \<open>errors\<close> and \<open>warnings\<close>, and none of them ever
  touches \<open>warnings\<close>: only the \<open>errors\<close> list is threaded through the model. A function
  that ends without a \<open>return\<close> value returns \<open>None\<close>.
\<close>

type_synonym 'a conv = "(pyexc + 'a) \<times> pyexc list"

definition process_flag_node :: "string \<Rightarrow> pyval \<Rightarrow> pydict \<Rightarrow> pyexc list \<Rightarrow> pyval conv" where
  "process_flag_node path node specs errs =
     (if \<not> is_bool node
      then (Inr PNone, errs @ [ValidationError path ''was expecting a JSON boolean''])
      else (Inr node, errs))"

text \<open>
  Modelled from the spec: \<open>read_minimum_value\<close> and \<open>read_maximum_value\<close> of
  \<open>byteplug/validator/utils.py\<close>, a file that is not among the sources. The converter
  uses their result as nothing (no bound) or a pair of an exclusivity flag and a value.
  The spec gives a bound as a bare number, which is inclusive, or as an object with a
  \<open>value\<close> and an optional boolean \<open>exclusive\<close>.
\<close>

definition read_bound_value :: "string \<Rightarrow> pydict \<Rightarrow> (pyval \<times> pyval) option" where
  "read_bound_value name specs =
     (case map_of specs name of
        None \<Rightarrow> None
      | Some b \<Rightarrow>
          if is_number b then Some (PBool False, b)
          else (case b of
                  PDict d \<Rightarrow>
                    Some (case map_of d ''exclusive'' of Some e \<Rightarrow> e | None \<Rightarrow> PBool False,
                          dget d ''value'')
                | _ \<Rightarrow> None))"

definition read_minimum_value :: "pydict \<Rightarrow> (pyval \<times> pyval) option" where
  "read_minimum_value specs = read_bound_value ''minimum'' specs"

definition read_maximum_value :: "pydict \<Rightarrow> (pyval \<times> pyval) option" where
  "read_maximum_value specs = read_bound_value ''maximum'' specs"

text \<open>\<open>int(x)\<close> on a number: a float is truncated towards zero; \<open>int\<close> of a NaN raises
  \<open>ValueError\<close> and of an infinity \<open>OverflowError\<close>.\<close>

definition trunc :: "rat \<Rightarrow> int" where
  "trunc r = (if 0 \<le> r then \<lfloor>r\<rfloor> else \<lceil>r\<rceil>)"

fun py_int :: "pyval \<Rightarrow> pyexc + pyval" where
  "py_int (PInt i) = Inr (PInt i)"
| "py_int (PBool b) = Inr (PInt (if b then 1 else 0))"
| "py_int (PFloat (Finite r)) = Inr (PInt (trunc r))"
| "py_int (PFloat NaN) = Inl (ValueError [''cannot convert float NaN to integer''])"
| "py_int (PFloat f) = Inl OverflowError"
| "py_int v = Inl TypeError"

text \<open>\<open>process_integer_node\<close> after the type check, in two parts: the block on
  \<open>minimum\<close>, then the block on \<open>maximum\<close> and the final \<open>return int(node)\<close>.\<close>

definition integer_maximum_part ::
  "string \<Rightarrow> pyval \<Rightarrow> (pyval \<times> pyval) option \<Rightarrow> pyexc list \<Rightarrow> pyval conv" where
  "integer_maximum_part path node maximum errs =
     (case maximum of
        Some (is_exclusive, bound) \<Rightarrow>
          if truthy is_exclusive then
            (case py_lt node bound of
               Inl e \<Rightarrow> (Inl e, errs)
             | Inr ok \<Rightarrow>
                 if \<not> ok
                 then (Inr PNone, errs @ [ValidationError path ''value must be strictly less than X''])
                 else (py_int node, errs))
          else
            (case py_le node bound of
               Inl e \<Rightarrow> (Inl e, errs)
             | Inr ok \<Rightarrow>
                 if \<not> ok
                 then (Inr PNone, errs @ [ValidationError path ''value must be equal or less than X''])
                 else (py_int node, errs))
      | None \<Rightarrow> (py_int node, errs))"

definition process_integer_node :: "string \<Rightarrow> pyval \<Rightarrow> pydict \<Rightarrow> pyexc list \<Rightarrow> pyval conv" where
  "process_integer_node path node specs errs =
     (if \<not> is_number node
      then (Inr PNone, errs @ [ValidationError path ''was expecting a JSON number''])
      else
        let minimum = read_minimum_value specs;
            maximum = read_maximum_value specs
        in case minimum of
             Some (is_exclusive, bound) \<Rightarrow>
               if truthy is_exclusive then
                 (case py_gt node bound of
                    Inl e \<Rightarrow> (Inl e, errs)
                  | Inr ok \<Rightarrow>
                      if \<not> ok
                      then (Inr PNone,
                            errs @ [ValidationError path ''value must be strictly greater than X''])
                      else integer_maximum_part path node maximum errs)
               else
                 (case py_ge node bound of
                    Inl e \<Rightarrow> (Inl e, errs)
                  | Inr ok \<Rightarrow>
                      if \<not> ok
                      then (Inr PNone,
                            errs @ [ValidationError path ''value must be equal or greater than X''])
                      else integer_maximum_part path node maximum errs)
           | None \<Rightarrow> integer_maximum_part path node maximum errs)"

definition process_decimal_node :: "string \<Rightarrow> pyval \<Rightarrow> pydict \<Rightarrow> pyexc list \<Rightarrow> pyval conv" where
  "process_decimal_node path node specs errs = (Inr PNone, errs)"

text \<open>
  The length checks that \<open>process_string_node\<close> and \<open>process_list_node\<close> both make, with
  \<open>what\<close> the word of the message and \<open>n\<close> the length of the node. \<open>Failed\<close> is the early
  \<open>return\<close> after an error was appended. A length that is neither an \<open>int\<close> nor a dict has
  no \<open>get\<close>.
\<close>

datatype check = Raised pyexc | Failed "pyexc list" | Passed

definition length_checks :: "string \<Rightarrow> string \<Rightarrow> nat \<Rightarrow> pyval \<Rightarrow> pyexc list \<Rightarrow> check" where
  "length_checks what path n len errs =
     (if len \<noteq> PNone then
        (case len of
           PInt l \<Rightarrow>
             if int n \<noteq> l
             then Failed (errs @ [ValidationError path
                                    (''length of '' @ what @ '' must be equal to X'')])
             else Passed
         | PDict d \<Rightarrow>
             let minimum = dget d ''minimum'';
                 maximum = dget d ''maximum''
             in (case (if truthy minimum then py_ge (PInt (int n)) minimum else Inr True) of
                   Inl e \<Rightarrow> Raised e
                 | Inr ok_min \<Rightarrow>
                     if \<not> ok_min
                     then Failed (errs @ [ValidationError path
                                     (''length of '' @ what @ '' must be greater or equal to X'')])
                     else
                       (case (if truthy maximum then py_le (PInt (int n)) maximum else Inr True) of
                          Inl e \<Rightarrow> Raised e
                        | Inr ok_max \<Rightarrow>
                            if \<not> ok_max
                            then Failed (errs @ [ValidationError path
                                     (''length of '' @ what @ '' must be lower or equal to X'')])
                            else Passed))
         | _ \<Rightarrow> Raised AttributeError)
      else Passed)"

text \<open>\<open>re.match(pattern, node)\<close> with a pattern taken from the schema is the parameter
  \<open>re_match\<close>: it says whether the pattern matches, or raises.\<close>

definition process_string_node ::
  "(pyval \<Rightarrow> string \<Rightarrow> pyexc + bool) \<Rightarrow> string \<Rightarrow> pyval \<Rightarrow> pydict \<Rightarrow> pyexc list \<Rightarrow> pyval conv" where
  "process_string_node re_match path node specs errs =
     (case node of
        PStr s \<Rightarrow>
          (case length_checks ''string'' path (length s) (dget specs ''length'') errs of
             Raised e \<Rightarrow> (Inl e, errs)
           | Failed errs1 \<Rightarrow> (Inr PNone, errs1)
           | Passed \<Rightarrow>
               let pattern = dget specs ''pattern'' in
               if pattern \<noteq> PNone then
                 (case re_match pattern s of
                    Inl e \<Rightarrow> (Inl e, errs)
                  | Inr matched \<Rightarrow>
                      if \<not> matched
                      then (Inl (ValidationError path ''didnt match pattern''), errs)
                      else (Inr node, errs))
               else (Inr node, errs))
      | _ \<Rightarrow> (Inl (ValidationError path ''was expecting a JSON string''), errs))"

text \<open>\<open>s in values\<close> for a string \<open>s\<close>: an element of a list or tuple, a key of a dict, a
  substring of a string.\<close>

fun starts_with :: "string \<Rightarrow> string \<Rightarrow> bool" where
  "starts_with t [] = True"
| "starts_with [] (x # s) = False"
| "starts_with (y # t) (x # s) = (x = y \<and> starts_with t s)"

fun has_substring :: "string \<Rightarrow> string \<Rightarrow> bool" where
  "has_substring [] s = (s = [])"
| "has_substring (y # t) s = (starts_with (y # t) s \<or> has_substring t s)"

definition str_in :: "string \<Rightarrow> pyval \<Rightarrow> pyexc + bool" where
  "str_in s container =
     (case container of
        PList xs \<Rightarrow> Inr (PStr s \<in> set xs)
      | PTuple xs \<Rightarrow> Inr (PStr s \<in> set xs)
      | PDict d \<Rightarrow> Inr (has_key d s)
      | PStr t \<Rightarrow> Inr (has_substring t s)
      | _ \<Rightarrow> Inl TypeError)"

definition process_enum_node :: "string \<Rightarrow> pyval \<Rightarrow> pydict \<Rightarrow> pyexc list \<Rightarrow> pyval conv" where
  "process_enum_node path node specs errs =
     (case node of
        PStr s \<Rightarrow>
          (case dgetitem specs ''values'' of
             Inl e \<Rightarrow> (Inl e, errs)
           | Inr values \<Rightarrow>
               (case str_in s values of
                  Inl e \<Rightarrow> (Inl e, errs)
                | Inr found \<Rightarrow>
                    if \<not> found
                    then (Inr PNone, errs @ [ValidationError path
                            ''value was expected to be one of [foo, bar, quz]''])
                    else (Inr node, errs)))
      | _ \<Rightarrow> (Inr PNone, errs @ [ValidationError path ''was expecting a JSON string'']))"


text \<open>\<open>len(x)\<close> and \<open>x[i]\<close> with a loop index, on any object.\<close>

definition py_len :: "pyval \<Rightarrow> pyexc + nat" where
  "py_len v =
     (case v of
        PStr s \<Rightarrow> Inr (length s)
      | PList xs \<Rightarrow> Inr (length xs)
      | PTuple xs \<Rightarrow> Inr (length xs)
      | PDict d \<Rightarrow> Inr (length d)
      | _ \<Rightarrow> Inl TypeError)"

definition py_index :: "pyval \<Rightarrow> nat \<Rightarrow> pyexc + pyval" where
  "py_index v i =
     (case v of
        PList xs \<Rightarrow> if i < length xs then Inr (xs ! i) else Inl IndexError
      | PTuple xs \<Rightarrow> if i < length xs then Inr (xs ! i) else Inl IndexError
      | PStr s \<Rightarrow> if i < length s then Inr (PStr [s ! i]) else Inl IndexError
      | PDict d \<Rightarrow> Inl KeyError
      | _ \<Rightarrow> Inl TypeError)"

text \<open>\<open>d[k] = v\<close> on a dict: a new key goes to the end, a present key keeps its place.\<close>

definition dset :: "pydict \<Rightarrow> string \<Rightarrow> pyval \<Rightarrow> pydict" where
  "dset d k v =
     (if has_key d k then map (\<lambda>(k1, v1). if k1 = k then (k1, v) else (k1, v1)) d
      else d @ [(k, v)])"

text \<open>
  The list, tuple and map kinds call \<open>adjust_node\<close> on the nodes nested in the node. They
  are defined before it, with the recursive call as the parameter \<open>adj\<close>. Each loop
  carries its index and the \<open>adjusted_node\<close> built so far.
\<close>

fun list_items_loop ::
  "(string \<Rightarrow> pyval \<Rightarrow> pyval \<Rightarrow> pyexc list \<Rightarrow> pyval conv) \<Rightarrow> string \<Rightarrow> pyval \<Rightarrow> nat
    \<Rightarrow> pyval list \<Rightarrow> pyval list \<Rightarrow> pyexc list \<Rightarrow> (pyval list) conv" where
  "list_items_loop adj path value index [] adjusted errs = (Inr adjusted, errs)"
| "list_items_loop adj path value index (item # rest) adjusted errs =
     (case adj (path @ ''.['' @ str_of_nat index @ '']'') item value errs of
        (Inl e, errs1) \<Rightarrow> (Inl e, errs1)
      | (Inr v, errs1) \<Rightarrow> list_items_loop adj path value (Suc index) rest (adjusted @ [v]) errs1)"

definition process_list_node ::
  "(string \<Rightarrow> pyval \<Rightarrow> pyval \<Rightarrow> pyexc list \<Rightarrow> pyval conv) \<Rightarrow> string \<Rightarrow> pyval \<Rightarrow> pydict
    \<Rightarrow> pyexc list \<Rightarrow> pyval conv" where
  "process_list_node adj path node specs errs =
     (case dgetitem specs ''value'' of
        Inl e \<Rightarrow> (Inl e, errs)
      | Inr value \<Rightarrow>
          (case node of
             PList items \<Rightarrow>
               (case length_checks ''list'' path (length items) (dget specs ''length'') errs of
                  Raised e \<Rightarrow> (Inl e, errs)
                | Failed errs1 \<Rightarrow> (Inr PNone, errs1)
                | Passed \<Rightarrow>
                    (case list_items_loop adj path value 0 items [] errs of
                       (Inl e, errs1) \<Rightarrow> (Inl e, errs1)
                     | (Inr adjusted, errs1) \<Rightarrow> (Inr (PList adjusted), errs1)))
           | _ \<Rightarrow> (Inr PNone, errs @ [ValidationError path ''was expecting a JSON array''])))"

fun tuple_items_loop ::
  "(string \<Rightarrow> pyval \<Rightarrow> pyval \<Rightarrow> pyexc list \<Rightarrow> pyval conv) \<Rightarrow> string \<Rightarrow> pyval \<Rightarrow> nat
    \<Rightarrow> pyval list \<Rightarrow> pyval list \<Rightarrow> pyexc list \<Rightarrow> (pyval list) conv" where
  "tuple_items_loop adj path values index [] adjusted errs = (Inr adjusted, errs)"
| "tuple_items_loop adj path values index (item # rest) adjusted errs =
     (case py_index values index of
        Inl e \<Rightarrow> (Inl e, errs)
      | Inr value \<Rightarrow>
          (case adj (path @ ''.('' @ str_of_nat index @ '')'') item value errs of
             (Inl e, errs1) \<Rightarrow> (Inl e, errs1)
           | (Inr v, errs1) \<Rightarrow>
               tuple_items_loop adj path values (Suc index) rest (adjusted @ [v]) errs1))"

definition process_tuple_node ::
  "(string \<Rightarrow> pyval \<Rightarrow> pyval \<Rightarrow> pyexc list \<Rightarrow> pyval conv) \<Rightarrow> string \<Rightarrow> pyval \<Rightarrow> pydict
    \<Rightarrow> pyexc list \<Rightarrow> pyval conv" where
  "process_tuple_node adj path node specs errs =
     (case dgetitem specs ''values'' of
        Inl e \<Rightarrow> (Inl e, errs)
      | Inr values \<Rightarrow>
          (case node of
             PList items \<Rightarrow>
               (case py_len values of
                  Inl e \<Rightarrow> (Inl e, errs)
                | Inr n \<Rightarrow>
                    if length items \<noteq> n
                    then (Inr PNone, errs @ [ValidationError path ''was expecting array of N elements''])
                    else
                      (case tuple_items_loop adj path values 0 items [] errs of
                         (Inl e, errs1) \<Rightarrow> (Inl e, errs1)
                       | (Inr adjusted, errs1) \<Rightarrow> (Inr (PTuple adjusted), errs1)))
           | _ \<Rightarrow> (Inr PNone, errs @ [ValidationError path ''was expecting a JSON array''])))"

fun map_items_loop ::
  "(string \<Rightarrow> pyval \<Rightarrow> pyval \<Rightarrow> pyexc list \<Rightarrow> pyval conv) \<Rightarrow> string \<Rightarrow> pydict
    \<Rightarrow> (string \<times> pyval) list \<Rightarrow> pydict \<Rightarrow> pyexc list \<Rightarrow> pydict conv" where
  "map_items_loop adj path node [] adjusted errs = (Inr adjusted, errs)"
| "map_items_loop adj path node ((key, value) # rest) adjusted errs =
     (if has_key node key then
        (case adj (path @ ''.'' @ key) (dget node key) value errs of
           (Inl e, errs1) \<Rightarrow> (Inl e, errs1)
         | (Inr v, errs1) \<Rightarrow> map_items_loop adj path node rest (dset adjusted key v) errs1)
      else map_items_loop adj path node rest adjusted errs)"

definition process_map_node ::
  "(string \<Rightarrow> pyval \<Rightarrow> pyval \<Rightarrow> pyexc list \<Rightarrow> pyval conv) \<Rightarrow> string \<Rightarrow> pyval \<Rightarrow> pydict
    \<Rightarrow> pyexc list \<Rightarrow> pyval conv" where
  "process_map_node adj path node specs errs =
     (case dgetitem specs ''fields'' of
        Inl e \<Rightarrow> (Inl e, errs)
      | Inr field_specs \<Rightarrow>
          (case node of
             PDict d \<Rightarrow>
               (case field_specs of
                  PDict fs \<Rightarrow>
                    (case map_items_loop adj path d fs [] errs of
                       (Inl e, errs1) \<Rightarrow> (Inl e, errs1)
                     | (Inr adjusted, errs1) \<Rightarrow> (Inr (PDict adjusted), errs1))
                | _ \<Rightarrow> (Inl AttributeError, errs))
           | _ \<Rightarrow> (Inr PNone, errs @ [ValidationError path ''was expecting a JSON object''])))"

text \<open>The table \<open>adjust_node_map\<close>, applied to the value of \<open>type\<close>: a value that cannot
  be hashed is a \<open>TypeError\<close>, one that is not a key of the table a \<open>KeyError\<close>.\<close>

definition process_node ::
  "(string \<Rightarrow> pyval \<Rightarrow> pyval \<Rightarrow> pyexc list \<Rightarrow> pyval conv) \<Rightarrow> (pyval \<Rightarrow> string \<Rightarrow> pyexc + bool)
    \<Rightarrow> pyval \<Rightarrow> string \<Rightarrow> pyval \<Rightarrow> pydict \<Rightarrow> pyexc list \<Rightarrow> pyval conv" where
  "process_node adj re_match kind path node specs errs =
     (if \<not> hashable kind then (Inl TypeError, errs)
      else if kind = PStr ''flag'' then process_flag_node path node specs errs
      else if kind = PStr ''integer'' then process_integer_node path node specs errs
      else if kind = PStr ''decimal'' then process_decimal_node path node specs errs
      else if kind = PStr ''string'' then process_string_node re_match path node specs errs
      else if kind = PStr ''enum'' then process_enum_node path node specs errs
      else if kind = PStr ''list'' then process_list_node adj path node specs errs
      else if kind = PStr ''tuple'' then process_tuple_node adj path node specs errs
      else if kind = PStr ''map'' then process_map_node adj path node specs errs
      else (Inl KeyError, errs))"

lemma list_items_loop_eq:
  "(\<And>p v s e. v \<in> set items \<Longrightarrow> adj p v s e = adj' p v s e)
   \<Longrightarrow> list_items_loop adj path value index items adjusted errs
       = list_items_loop adj' path value index items adjusted errs"
proof (induction items arbitrary: index adjusted errs)
  case Nil
  show ?case by simp
next
  case (Cons item rest)
  have h: "\<And>p s e. adj p item s e = adj' p item s e"
    using Cons.prems by simp
  have t: "\<And>i a e. list_items_loop adj path value i rest a e = list_items_loop adj' path value i rest a e"
    using Cons.IH Cons.prems by simp
  show ?case by (simp only: list_items_loop.simps h t)
qed

lemma tuple_items_loop_eq:
  "(\<And>p v s e. v \<in> set items \<Longrightarrow> adj p v s e = adj' p v s e)
   \<Longrightarrow> tuple_items_loop adj path values index items adjusted errs
       = tuple_items_loop adj' path values index items adjusted errs"
proof (induction items arbitrary: index adjusted errs)
  case Nil
  show ?case by simp
next
  case (Cons item rest)
  have h: "\<And>p s e. adj p item s e = adj' p item s e"
    using Cons.prems by simp
  have t: "\<And>i a e. tuple_items_loop adj path values i rest a e = tuple_items_loop adj' path values i rest a e"
    using Cons.IH Cons.prems by simp
  show ?case by (simp only: tuple_items_loop.simps h t)
qed

lemma map_items_loop_eq:
  "(\<And>p k s e. has_key node k \<Longrightarrow> adj p (dget node k) s e = adj' p (dget node k) s e)
   \<Longrightarrow> map_items_loop adj path node fs adjusted errs
       = map_items_loop adj' path node fs adjusted errs"
proof (induction fs arbitrary: adjusted errs)
  case Nil
  show ?case by simp
next
  case (Cons f rest)
  obtain key v where f: "f = (key, v)" by (cases f)
  have t: "\<And>a e. map_items_loop adj path node rest a e = map_items_loop adj' path node rest a e"
    using Cons.IH Cons.prems by simp
  show ?case
  proof (cases "has_key node key")
    case True
    then have h: "\<And>p s e. adj p (dget node key) s e = adj' p (dget node key) s e"
      using Cons.prems by simp
    show ?thesis unfolding f by (simp only: map_items_loop.simps h t)
  next
    case False
    then show ?thesis unfolding f by (simp add: t)
  qed
qed

lemma size_tuple_elem: "v \<in> set xs \<Longrightarrow> size v < size (PTuple xs)"
  by (induction xs) auto

lemma size_has_key: "has_key d k \<Longrightarrow> size (dget d k) < size (PDict d)"
  by (auto simp: dget_def has_key_def split: option.splits dest!: map_of_SomeD size_dict_value)

lemma process_node_cong [fundef_cong]:
  assumes "re_match = re_match'" "kind = kind'" "path = path'" "node = node'" "specs = specs'"
    "errs = errs'"
    and "\<And>p v s e. size v < size node' \<Longrightarrow> adj p v s e = adj' p v s e"
  shows "process_node adj re_match kind path node specs errs
         = process_node adj' re_match' kind' path' node' specs' errs'"
proof -
  have l: "process_list_node adj path' node' specs' errs' = process_list_node adj' path' node' specs' errs'"
  proof (cases node')
    case (PList items)
    have "\<And>value. list_items_loop adj path' value 0 items [] errs'
                   = list_items_loop adj' path' value 0 items [] errs'"
      using assms(7) PList size_list_elem by (intro list_items_loop_eq) auto
    then show ?thesis using PList by (simp add: process_list_node_def split: sum.splits check.splits)
  qed (simp_all add: process_list_node_def split: sum.splits)
  have t: "process_tuple_node adj path' node' specs' errs' = process_tuple_node adj' path' node' specs' errs'"
  proof (cases node')
    case (PList items)
    have "\<And>values. tuple_items_loop adj path' values 0 items [] errs'
                   = tuple_items_loop adj' path' values 0 items [] errs'"
      using assms(7) PList size_list_elem by (intro tuple_items_loop_eq) auto
    then show ?thesis using PList by (simp add: process_tuple_node_def split: sum.splits)
  qed (simp_all add: process_tuple_node_def split: sum.splits)
  have m: "process_map_node adj path' node' specs' errs' = process_map_node adj' path' node' specs' errs'"
  proof (cases node')
    case (PDict d)
    have "\<And>fs. map_items_loop adj path' d fs [] errs' = map_items_loop adj' path' d fs [] errs'"
      using assms(7) PDict size_has_key by (intro map_items_loop_eq) auto
    then show ?thesis using PDict by (simp add: process_map_node_def split: sum.splits pyval.splits)
  qed (simp_all add: process_map_node_def split: sum.splits)
  show ?thesis using assms(1-6) l t m by (simp add: process_node_def)
qed

function adjust_node ::
  "(pyval \<Rightarrow> string \<Rightarrow> pyexc + bool) \<Rightarrow> string \<Rightarrow> pyval \<Rightarrow> pyval \<Rightarrow> pyexc list \<Rightarrow> pyval conv" where
  "adjust_node re_match path node specs errs =
     (case specs of
        PDict d \<Rightarrow>
          (let optional = (case map_of d ''option'' of Some v \<Rightarrow> v | None \<Rightarrow> PBool False) in
           if \<not> truthy optional \<and> node = PNone then
             (Inr PNone, errs @ [ValueError [path, ''value cant be null'']])
           else if truthy optional \<and> node = PNone then (Inr PNone, errs)
           else
             (case dgetitem d ''type'' of
                Inl e \<Rightarrow> (Inl e, errs)
              | Inr kind \<Rightarrow> process_node (adjust_node re_match) re_match kind path node d errs))
      | _ \<Rightarrow> (Inl AttributeError, errs))"
  by pat_completeness auto
termination
  by (relation "measure (\<lambda>(re_match, path, node, specs, errs). size node)") auto

declare adjust_node.simps [simp del]

text \<open>
  \<open>document_to_object\<close>: the same convention for the two collectors as \<open>validate_specs\<close>.
  The JSON decoder is the parameter \<open>loads\<close>. The result holds the content of the
  \<open>errors\<close> list after the call.
\<close>

definition document_to_object ::
  "(string \<Rightarrow> pyexc + pyval) \<Rightarrow> (pyval \<Rightarrow> string \<Rightarrow> pyexc + bool) \<Rightarrow> string \<Rightarrow> pyval
    \<Rightarrow> pyexc list option \<Rightarrow> pyexc list option \<Rightarrow> pyval conv" where
  "document_to_object loads re_match document specs errors_arg warnings_arg =
     (if \<not> (errors_arg = None \<or> errors_arg = Some []) \<or>
         \<not> (warnings_arg = None \<or> warnings_arg = Some [])
      then (Inl AssertionError, given errors_arg)
      else
        let lazy_validation = (errors_arg \<noteq> None) in
        case loads document of
          Inl e \<Rightarrow> (Inl e, [])
        | Inr object \<Rightarrow>
            (case adjust_node re_match ''root'' object specs [] of
               (Inl e, errs) \<Rightarrow> (Inl e, errs)
             | (Inr adjusted_object, errs) \<Rightarrow>
                 if \<not> lazy_validation \<and> length errs > 0
                 then (Inl (errs ! 0), errs)
                 else (Inr adjusted_object, errs)))"


section \<open>The builder (types.py)\<close>

text \<open>
  One class per kind. The constructor arguments are typed here as the comments of the
  source give them: a bound is an \<open>int\<close> or a pair of an \<open>int\<close> and a \<open>bool\<close>, a length
  an \<open>int\<close> or a pair of optional \<open>int\<close>s; on such arguments every assertion of the
  constructors holds. The last argument of each constructor is \<open>option\<close>.
\<close>

datatype bound_arg = BoundInt int | BoundPair int bool

datatype length_arg = LengthInt int | LengthPair "int option" "int option"

datatype btype =
    Flag bool
  | Integer "bound_arg option" "bound_arg option" bool
  | String "length_arg option" "string option" bool
  | Enum "string list" bool
  | List btype "length_arg option" bool
  | Tuple "btype list" bool
  | Map "(string \<times> btype) list" bool

text \<open>Truth value of an argument, as \<open>if self.minimum:\<close> and \<open>if self.length:\<close> test it:
  absent and zero are false, a pair is a non-empty tuple and true.\<close>

fun bound_truthy :: "bound_arg option \<Rightarrow> bool" where
  "bound_truthy None = False"
| "bound_truthy (Some (BoundInt i)) = (i \<noteq> 0)"
| "bound_truthy (Some (BoundPair i e)) = True"

fun length_truthy :: "length_arg option \<Rightarrow> bool" where
  "length_truthy None = False"
| "length_truthy (Some (LengthInt i)) = (i \<noteq> 0)"
| "length_truthy (Some (LengthPair a b)) = True"

definition update_object :: "bool \<Rightarrow> pydict \<Rightarrow> pydict" where
  "update_object opt object = (if opt then dset object ''option'' (PBool True) else object)"

definition set_bound :: "string \<Rightarrow> bound_arg option \<Rightarrow> pydict \<Rightarrow> pydict" where
  "set_bound name bound object =
     (if bound_truthy bound then
        (case bound of
           Some (BoundInt i) \<Rightarrow> dset object name (PInt i)
         | Some (BoundPair i e) \<Rightarrow>
             dset object name (PDict [(''exclusive'', PBool e), (''value'', PInt i)])
         | None \<Rightarrow> object)
      else object)"

definition set_length :: "length_arg option \<Rightarrow> pydict \<Rightarrow> pydict" where
  "set_length len object =
     (if length_truthy len then
        (case len of
           Some (LengthInt i) \<Rightarrow> dset object ''length'' (PInt i)
         | Some (LengthPair a b) \<Rightarrow>
             (let l0 = [];
                  l1 = (case a of Some i \<Rightarrow> dset l0 ''minimum'' (PInt i) | None \<Rightarrow> l0);
                  l2 = (case b of Some i \<Rightarrow> dset l1 ''maximum'' (PInt i) | None \<Rightarrow> l1)
              in dset object ''length'' (PDict l2))
         | None \<Rightarrow> object)
      else object)"

fun to_object :: "btype \<Rightarrow> pyval" where
  "to_object (Flag opt) = PDict (update_object opt [(''type'', PStr ''flag'')])"
| "to_object (Integer minimum maximum opt) =
     PDict (update_object opt
             (set_bound ''maximum'' maximum
               (set_bound ''minimum'' minimum [(''type'', PStr ''integer'')])))"
| "to_object (String len pattern opt) =
     PDict (update_object opt
             ((case pattern of
                 Some p \<Rightarrow> (\<lambda>object. if p \<noteq> [] then dset object ''pattern'' (PStr p) else object)
               | None \<Rightarrow> (\<lambda>object. object))
               (set_length len [(''type'', PStr ''string'')])))"
| "to_object (Enum vs opt) =
     PDict (update_object opt
             (dset [(''type'', PStr ''enum'')] ''values'' (PList (map PStr vs))))"
| "to_object (List item len opt) =
     PDict (update_object opt
             (set_length len
               (dset [(''type'', PStr ''list'')] ''value'' (to_object item))))"
| "to_object (Tuple items opt) =
     PDict (update_object opt
             (dset [(''type'', PStr ''tuple'')] ''values'' (PList (map to_object items))))"
| "to_object (Map flds opt) =
     PDict (update_object opt
             (dset [(''type'', PStr ''map'')] ''fields''
               (PDict (map (\<lambda>kv. (fst kv, to_object (snd kv))) flds))))"


section \<open>The schema grammar, as the spec words it\<close>

text \<open>
  This section does not come from the code: \<open>spec_grammar\<close> says when a value is a schema
  of the grammar that the spec describes, to be compared with what the validator
  accepts. A block is a mapping with a \<open>type\<close> among the eight kinds, no key besides the
  kind's own, \<open>type\<close> and \<open>option\<close>, and a boolean \<open>option\<close> if any. A bound is a bare
  number or an object with a number \<open>value\<close>, an optional boolean \<open>exclusive\<close> and no other
  key, and a minimum does not exceed the maximum. A length is a non-negative number, or
  an object with only \<open>minimum\<close> and \<open>maximum\<close>, each a non-negative number, the first
  not above the second. A pattern is a string. The values of an enum are a non-empty
  list of distinct identifiers; a list has a \<open>value\<close> block; the values of a tuple are a
  non-empty list of blocks; the fields of a map are a non-empty mapping from
  identifiers to blocks.
\<close>

definition non_negative :: "pyval \<Rightarrow> bool" where
  "non_negative v = (case num_of v of Some x \<Rightarrow> float_le (Finite 0) x | None \<Rightarrow> False)"

definition exceeds :: "pyval \<Rightarrow> pyval \<Rightarrow> bool" where
  "exceeds a b = (case (num_of a, num_of b) of (Some x, Some y) \<Rightarrow> float_lt y x | _ \<Rightarrow> False)"

definition spec_bound :: "pyval \<Rightarrow> bool" where
  "spec_bound b =
     (is_number b \<or>
      (case b of
         PDict d \<Rightarrow>
           list_all (\<lambda>k. k = ''exclusive'' \<or> k = ''value'') (map fst d)
           \<and> (case map_of d ''value'' of Some v \<Rightarrow> is_number v | None \<Rightarrow> False)
           \<and> (case map_of d ''exclusive'' of Some e \<Rightarrow> is_bool e | None \<Rightarrow> True)
       | _ \<Rightarrow> False))"

definition spec_bound_value :: "pyval \<Rightarrow> pyval" where
  "spec_bound_value b = (case b of PDict d \<Rightarrow> dget d ''value'' | _ \<Rightarrow> b)"

definition spec_bounds :: "pydict \<Rightarrow> bool" where
  "spec_bounds d =
     ((case map_of d ''minimum'' of Some b \<Rightarrow> spec_bound b | None \<Rightarrow> True)
      \<and> (case map_of d ''maximum'' of Some b \<Rightarrow> spec_bound b | None \<Rightarrow> True)
      \<and> (case (map_of d ''minimum'', map_of d ''maximum'') of
            (Some a, Some b) \<Rightarrow> \<not> exceeds (spec_bound_value a) (spec_bound_value b)
          | _ \<Rightarrow> True))"

definition spec_length :: "pyval \<Rightarrow> bool" where
  "spec_length l =
     ((is_number l \<and> non_negative l) \<or>
      (case l of
         PDict d \<Rightarrow>
           list_all (\<lambda>k. k = ''minimum'' \<or> k = ''maximum'') (map fst d)
           \<and> (case map_of d ''minimum'' of Some a \<Rightarrow> is_number a \<and> non_negative a | None \<Rightarrow> True)
           \<and> (case map_of d ''maximum'' of Some b \<Rightarrow> is_number b \<and> non_negative b | None \<Rightarrow> True)
           \<and> (case (map_of d ''minimum'', map_of d ''maximum'') of
                 (Some a, Some b) \<Rightarrow> \<not> exceeds a b
               | _ \<Rightarrow> True)
       | _ \<Rightarrow> False))"

definition spec_identifiers :: "pyval list \<Rightarrow> bool" where
  "spec_identifiers vs =
     (vs \<noteq> [] \<and> distinct vs \<and> list_all (\<lambda>v. case v of PStr s \<Rightarrow> ident_match s | _ \<Rightarrow> False) vs)"

lemma size_map_of_value: "map_of d k = Some v \<Longrightarrow> size v < size (PDict d)"
  by (auto dest!: map_of_SomeD size_dict_value)

function spec_grammar :: "pyval \<Rightarrow> bool" where
  "spec_grammar block =
     (case block of
        PDict d \<Rightarrow>
          (case map_of d ''type'' of
             Some (PStr kind) \<Rightarrow>
               kind \<in> set kinds
               \<and> list_all (\<lambda>k. k \<in> set (whitelist kind) \<or> k = ''type'' \<or> k = ''option'') (map fst d)
               \<and> (case map_of d ''option'' of Some opt \<Rightarrow> is_bool opt | None \<Rightarrow> True)
               \<and> (if kind = ''flag'' then True
                  else if kind = ''integer'' \<or> kind = ''decimal'' then spec_bounds d
                  else if kind = ''string'' then
                    (case map_of d ''length'' of Some l \<Rightarrow> spec_length l | None \<Rightarrow> True)
                    \<and> (case map_of d ''pattern'' of Some p \<Rightarrow> is_str p | None \<Rightarrow> True)
                  else if kind = ''enum'' then
                    (case map_of d ''values'' of Some (PList vs) \<Rightarrow> spec_identifiers vs | _ \<Rightarrow> False)
                  else if kind = ''list'' then
                    (case map_of d ''value'' of Some v \<Rightarrow> spec_grammar v | None \<Rightarrow> False)
                    \<and> (case map_of d ''length'' of Some l \<Rightarrow> spec_length l | None \<Rightarrow> True)
                  else if kind = ''tuple'' then
                    (case map_of d ''values'' of
                       Some (PList vs) \<Rightarrow> vs \<noteq> [] \<and> list_all spec_grammar vs
                     | _ \<Rightarrow> False)
                  else
                    (case map_of d ''fields'' of
                       Some (PDict fs) \<Rightarrow>
                         fs \<noteq> [] \<and> distinct (map fst fs)
                         \<and> list_all (\<lambda>kv. ident_match (fst kv) \<and> spec_grammar (snd kv)) fs
                     | _ \<Rightarrow> False))
           | _ \<Rightarrow> False)
      | _ \<Rightarrow> False)"
  by pat_completeness auto
termination
proof (relation "measure size")
  show "wf (measure size)" by simp
next
  fix block d x kind v
  assume "block = PDict d" "map_of d ''value'' = Some v"
  then show "(v, block) \<in> measure size" using size_map_of_value by simp
next
  fix block d x kind y vs z
  assume "block = PDict d" "map_of d ''values'' = Some y" "y = PList vs" "z \<in> set vs"
  then show "(z, block) \<in> measure size"
    using size_map_of_value [of d "''values''" "PList vs"] size_list_elem [of z vs] by simp
next
  fix block d x kind y fs z
  assume "block = PDict d" "map_of d ''fields'' = Some y" "y = PDict fs" "z \<in> set fs"
  then show "(snd z, block) \<in> measure size"
    using size_map_of_value [of d "''fields''" "PDict fs"] size_dict_value [of "fst z" "snd z" fs]
    by simp
qed

declare spec_grammar.simps [simp del]

section \<open>Diagnostics of one node\<close>

text \<open>
  The predicates used to speak about the errors that the validation of a node appends.
  A message reports an unexpected property when it ends in \<open>property is unexpected\<close>;
  \<open>is_unexpected_at path\<close> holds of such an error at exactly \<open>path\<close>. \<open>below p\<close> holds of
  a \<open>ValidationError\<close> whose path starts with \<open>p\<close>, and \<open>inner p\<close> when moreover it is
  not an unexpected-property error at \<open>p\<close> itself. \<open>errs_ok P c c1\<close>: the errors of \<open>c1\<close>
  are those of \<open>c\<close> followed by errors that all satisfy \<open>P\<close>.
\<close>

definition is_unexpected_msg :: "string \<Rightarrow> bool" where
  "is_unexpected_msg m = (23 \<le> length m \<and> drop (length m - 23) m = '' property is unexpected'')"

definition is_unexpected_at :: "string \<Rightarrow> pyexc \<Rightarrow> bool" where
  "is_unexpected_at path e =
     (case e of ValidationError q m \<Rightarrow> q = path \<and> is_unexpected_msg m | _ \<Rightarrow> False)"

definition below :: "string \<Rightarrow> pyexc \<Rightarrow> bool" where
  "below p e = (case e of ValidationError q m \<Rightarrow> take (length p) q = p | _ \<Rightarrow> False)"

definition inner :: "string \<Rightarrow> pyexc \<Rightarrow> bool" where
  "inner p e =
     (case e of
        ValidationError q m \<Rightarrow> take (length p) q = p \<and> (q = p \<longrightarrow> \<not> is_unexpected_msg m)
      | _ \<Rightarrow> False)"

definition errs_ok :: "(pyexc \<Rightarrow> bool) \<Rightarrow> diagnostics \<Rightarrow> diagnostics \<Rightarrow> bool" where
  "errs_ok P c c1 = (\<exists>new. errors c1 = errors c @ new \<and> list_all P new)"

section \<open>Schemas and documents of the second pass\<close>

text \<open>
  \<open>plain_schema\<close>: every dict in the schema has distinct keys (as every dict has) and
  those of \<open>type\<close> decimal have \<open>option: true\<close>. \<open>integral\<close>: every float in the document has an integer
  value, so that \<open>int\<close> does not change the number. \<open>grows errs errs1\<close>: the list \<open>errs1\<close>
  is \<open>errs\<close> with errors appended.
\<close>

fun plain_schema :: "pyval \<Rightarrow> bool" where
  "plain_schema (PDict d) =
     (distinct (map fst d)
      \<and> (map_of d ''type'' = Some (PStr ''decimal'') \<longrightarrow> map_of d ''option'' = Some (PBool True))
      \<and> list_all (\<lambda>kv. plain_schema (snd kv)) d)"
| "plain_schema (PList xs) = list_all plain_schema xs"
| "plain_schema (PTuple xs) = list_all plain_schema xs"
| "plain_schema v = True"

text \<open>
  Modelled from the spec: the re-encoding of an adjusted value, which is the value that
  the JSON decoder reads back once the adjusted value has been written as a JSON
  document (the encoder is not among the sources). JSON has arrays only, so a tuple is
  read back as a list; \<open>None\<close>, booleans, numbers, strings, lists and dicts with string
  keys are read back as they were.
\<close>

fun reencode :: "pyval \<Rightarrow> pyval" where
  "reencode (PTuple xs) = PList (map reencode xs)"
| "reencode (PList xs) = PList (map reencode xs)"
| "reencode (PDict d) = PDict (map (\<lambda>(k, v). (k, reencode v)) d)"
| "reencode v = v"

fun integral :: "pyval \<Rightarrow> bool" where
  "integral (PFloat f) = (case f of Finite r \<Rightarrow> r = of_int \<lfloor>r\<rfloor> | _ \<Rightarrow> False)"
| "integral (PList xs) = list_all integral xs"
| "integral (PTuple xs) = list_all integral xs"
| "integral (PDict d) = list_all (\<lambda>kv. integral (snd kv)) d"
| "integral v = True"

definition grows :: "pyexc list \<Rightarrow> pyexc list \<Rightarrow> bool" where
  "grows errs errs1 = (\<exists>new. errs1 = errs @ new)"

section \<open>Evaluation of the definitions\<close>

text \<open>The simplification rules that unfold the schema validator and the converter on a
  concrete input.\<close>

lemma py_lt_unfold: "py_lt a b =
     (case (num_of a, num_of b) of
        (Some x, Some y) \<Rightarrow> Inr (float_lt x y)
      | _ \<Rightarrow>
        (case (a, b) of
           (PStr s, PStr t) \<Rightarrow> Inr (str_lt s t)
         | (PList xs, PList ys) \<Rightarrow> seq_cmp True xs ys
         | (PTuple xs, PTuple ys) \<Rightarrow> seq_cmp True xs ys
         | _ \<Rightarrow> Inl TypeError))"
  unfolding py_lt_def py_cmp.simps(1) [of True a b] by (simp split: option.split pyval.split)

lemma py_le_unfold: "py_le a b =
     (case (num_of a, num_of b) of
        (Some x, Some y) \<Rightarrow> Inr (float_le x y)
      | _ \<Rightarrow>
        (case (a, b) of
           (PStr s, PStr t) \<Rightarrow> Inr (str_le s t)
         | (PList xs, PList ys) \<Rightarrow> seq_cmp False xs ys
         | (PTuple xs, PTuple ys) \<Rightarrow> seq_cmp False xs ys
         | _ \<Rightarrow> Inl TypeError))"
  unfolding py_le_def py_cmp.simps(1) [of False a b] by (simp split: option.split pyval.split)

lemmas py_eval =
  dget_def has_key_def dgetitem_def dset_def given_def quoted_def is_str_def
  py_lt_unfold py_le_unfold py_eq.simps py_cmp.simps py_gt_def py_ge_def py_len_def py_index_def
  str_in_def
  trunc_def ident_match_def lower_def digit_def Let_def

lemmas specs_eval =
  validate_block.simps validate_specs_def validate_root_block_def validate_kind_def validate_flag_type_def
  validate_integer_type_def validate_decimal_type_def validate_string_type_def
  validate_enum_type_def validate_list_type_def validate_tuple_type_def validate_map_type_def
  validate_length_property_def length_bound_checks_def checked_bound_def
  minimum_maximum_order_def validate_minimum_or_maximum_property_def
  kinds_def whitelist_def add_error_def add_warning_def

lemmas document_eval =
  adjust_node.simps document_to_object_def process_node_def process_flag_node_def process_integer_node_def
  integer_maximum_part_def process_decimal_node_def process_string_node_def
  process_enum_node_def process_list_node_def process_tuple_node_def process_map_node_def
  length_checks_def read_minimum_value_def read_maximum_value_def read_bound_value_def

text \<open>
  Two lists or two tuples compare at their first pair of unequal items. In a schema a
  bound whose \<open>value\<close> is a list is reported (``value must be a number''), and the
  order of the two bounds is still checked, with the comparison of lists.
\<close>

lemma py_lt_sequences:
  "py_lt (PList [PInt 2]) (PList [PInt 1]) = Inr False"
  "py_lt (PList [PInt 1]) (PList [PInt 2]) = Inr True"
  "py_lt (PList [PInt 1]) (PList [PFloat (Finite 1), PInt 0]) = Inr True"
  "py_le (PTuple [PBool True, PStr ''a'']) (PTuple [PInt 1, PStr ''a'']) = Inr True"
  "py_lt (PList [PInt 1, PStr ''a'']) (PList [PInt 1, PInt 2]) = Inl TypeError"
  by (simp_all add: py_eval)

lemma validate_specs_sequence_bounds:
  "validate_specs hd
     (PDict [(''type'', PStr ''integer''),
             (''minimum'', PDict [(''value'', PList [PInt 1])]),
             (''maximum'', PDict [(''value'', PList [PInt 2])])])
     (Some []) (Some [])
   = (Inr (), \<lparr>errors = [ValidationError ''root.minimum.value'' ''value must be a number'',
                           ValidationError ''root.maximum.value'' ''value must be a number''],
               warnings = []\<rparr>)"
  "validate_specs hd
     (PDict [(''type'', PStr ''integer''),
             (''minimum'', PDict [(''value'', PList [PInt 2])]),
             (''maximum'', PDict [(''value'', PList [PInt 1])])])
     (Some []) (Some [])
   = (Inr (), \<lparr>errors = [ValidationError ''root.minimum.value'' ''value must be a number'',
                           ValidationError ''root.maximum.value'' ''value must be a number'',
                           ValidationError ''root'' ''minimum must be lower than maximum''],
               warnings = []\<rparr>)"
  by (simp_all add: py_eval specs_eval)

section \<open>Lazy validation of a schema\<close>

text \<open>
  C2. The claim: whatever value is supplied as the schema, \<open>validate_specs\<close> in lazy mode
  (called with an empty \<open>errors\<close> list) returns normally, with every violation recorded
  in the collector. The code does not do that. On a length bound that is not a number it
  records the error and then compares the bound with zero; on an enum value that is not
  a string it calls \<open>re.match\<close>; on a bound object without \<open>value\<close> it records the error
  and then compares the missing value with the other bound. Each of the three escapes as
  a \<open>TypeError\<close>, in lazy mode.
\<close>

theorem validate_specs_lazy_raises:
  "validate_specs pop
     (PDict [(''type'', PStr ''string''), (''length'', PDict [(''minimum'', PStr ''a'')])])
     (Some []) (Some [])
   = (Inl TypeError,
      \<lparr>errors = [ValidationError ''root.length.minimum'' ''value must be a number''],
       warnings = []\<rparr>)
   \<and> validate_specs pop
     (PDict [(''type'', PStr ''enum''), (''values'', PList [PInt 1])])
     (Some []) (Some [])
   = (Inl TypeError, \<lparr>errors = [], warnings = []\<rparr>)
   \<and> validate_specs pop
     (PDict [(''type'', PStr ''integer''), (''minimum'', PDict [(''exclusive'', PBool True)]),
             (''maximum'', PInt 5)])
     (Some []) (Some [])
   = (Inl TypeError,
      \<lparr>errors = [ValidationError ''root.minimum'' (quoted ''value'' @ '' property is missing'')],
       warnings = []\<rparr>)"
  by (simp add: py_eval specs_eval)


theorem validate_specs_lazy_raises_witness:
  "validate_specs hd
     (PDict [(''type'', PStr ''string''), (''length'', PDict [(''minimum'', PStr ''a'')])])
     (Some []) (Some [])
   = (Inl TypeError,
      \<lparr>errors = [ValidationError ''root.length.minimum'' ''value must be a number''],
       warnings = []\<rparr>)"
  using validate_specs_lazy_raises [of hd] by (rule conjunct1)

section \<open>Lazy conversion of a document\<close>

text \<open>
  C3. The claim: for a certified schema, conversion in lazy mode never aborts the walk on
  a content error; a value that is not a string, or a pattern mismatch, at a string node
  is recorded in the collector like any other violation, and the siblings of the failing
  node are still attempted. The code does not do that at string nodes:
  \<open>process_string_node\<close> raises its \<open>ValidationError\<close> where the other kinds append it.
  The schemas below pass the schema validator without an error. On the first the
  call ends with the exception in lazy mode; on the second, a tuple of a string and a
  flag, the exception of position 0 leaves position 1 (which is wrong too) unvisited and
  the collector empty; on the third a pattern that does not match is raised as well.
\<close>

theorem document_to_object_lazy_raises:
  "validate_specs pop (PDict [(''type'', PStr ''string'')]) (Some []) (Some [])
   = (Inr (), \<lparr>errors = [], warnings = []\<rparr>)
   \<and> document_to_object (\<lambda>text. Inr (PInt 5)) re_match ''5''
     (PDict [(''type'', PStr ''string'')]) (Some []) (Some [])
   = (Inl (ValidationError ''root'' ''was expecting a JSON string''), [])
   \<and> validate_specs pop
     (PDict [(''type'', PStr ''tuple''),
             (''values'', PList [PDict [(''type'', PStr ''string'')],
                                 PDict [(''type'', PStr ''flag'')]])]) (Some []) (Some [])
   = (Inr (), \<lparr>errors = [], warnings = []\<rparr>)
   \<and> document_to_object (\<lambda>text. Inr (PList [PInt 1, PInt 1])) re_match ''[1, 1]''
     (PDict [(''type'', PStr ''tuple''),
             (''values'', PList [PDict [(''type'', PStr ''string'')],
                                 PDict [(''type'', PStr ''flag'')]])]) (Some []) (Some [])
   = (Inl (ValidationError ''root.(0)'' ''was expecting a JSON string''), [])
   \<and> validate_specs pop
     (PDict [(''type'', PStr ''string''), (''pattern'', PStr ''a+'')]) (Some []) (Some [])
   = (Inr (), \<lparr>errors = [], warnings = []\<rparr>)
   \<and> document_to_object (\<lambda>text. Inr (PStr ''b'')) (\<lambda>pattern s. Inr False) [CHR 0x22, CHR ''b'', CHR 0x22]
     (PDict [(''type'', PStr ''string''), (''pattern'', PStr ''a+'')]) (Some []) (Some [])
   = (Inl (ValidationError ''root'' ''didnt match pattern''), [])"
  by (simp add: py_eval specs_eval document_eval)

theorem document_to_object_lazy_raises_witness:
  "document_to_object (\<lambda>text. Inr (PInt 5)) (\<lambda>pattern s. Inr True) ''5''
     (PDict [(''type'', PStr ''string'')]) (Some []) (Some [])
   = (Inl (ValidationError ''root'' ''was expecting a JSON string''), [])"
  using document_to_object_lazy_raises [of hd "\<lambda>pattern s. Inr True"] by simp

section \<open>Bounds of zero in the builder\<close>

text \<open>
  C9. The claim: \<open>to_object()\<close> keeps every constraint given to a constructor, an integer
  bound of 0 and a length of 0 included, and its result passes the schema validator. The
  code tests the stored bound for truth (\<open>if self.minimum:\<close>) and not for presence, so
  \<open>Integer(min=0)\<close> and \<open>Integer(max=0)\<close> produce a schema without the bound, and
  \<open>String(length=0)\<close> one without the length; the pair form \<open>Integer(min=(0, False))\<close>
  keeps the same bound, and so does \<open>Integer(min=1)\<close>.
\<close>

theorem to_object_drops_zero_bound:
  "to_object (Integer (Some (BoundInt 0)) None False) = PDict [(''type'', PStr ''integer'')]
   \<and> to_object (Integer None (Some (BoundInt 0)) False) = PDict [(''type'', PStr ''integer'')]
   \<and> to_object (String (Some (LengthInt 0)) None False) = PDict [(''type'', PStr ''string'')]
   \<and> to_object (Integer (Some (BoundPair 0 False)) None False)
     = PDict [(''type'', PStr ''integer''),
              (''minimum'', PDict [(''exclusive'', PBool False), (''value'', PInt 0)])]
   \<and> to_object (Integer (Some (BoundInt 1)) None False)
     = PDict [(''type'', PStr ''integer''), (''minimum'', PInt 1)]"
  by (simp add: update_object_def set_bound_def set_length_def dset_def has_key_def)

theorem to_object_drops_zero_bound_witness:
  "to_object (Integer (Some (BoundInt 0)) None False) = PDict [(''type'', PStr ''integer'')]"
  using to_object_drops_zero_bound by (rule conjunct1)


section \<open>The decimal kind\<close>

text \<open>
  C8, as stated: at a node of kind decimal, a document value that is not null passes
  through unchanged. It does not: \<open>process_decimal_node\<close> has an empty body and returns
  \<open>None\<close>, so the adjusted value of the document value 1.5 is \<open>None\<close>.
\<close>

theorem decimal_pass_through_counterexample:
  "fst (adjust_node (\<lambda>pattern s. Inr True) ''root'' (PFloat (Finite (3 / 2)))
          (PDict [(''type'', PStr ''decimal'')]) [])
   \<noteq> Inr (PFloat (Finite (3 / 2)))"
  by (simp add: py_eval document_eval)

text \<open>
  C8, amended: for every document value that is not null, at a node whose schema has the
  kind decimal, conversion makes no check and records no error (the \<open>errors\<close> list comes
  back as it went in), and the adjusted value is \<open>None\<close> whatever the document value is.
\<close>

theorem decimal_node_returns_none:
  assumes "node \<noteq> PNone" and "map_of specs ''type'' = Some (PStr ''decimal'')"
  shows "adjust_node re_match path node (PDict specs) errs = (Inr PNone, errs)"
  using assms
  by (simp add: adjust_node.simps dgetitem_def process_node_def process_decimal_node_def)

theorem decimal_node_returns_none_witness:
  "adjust_node (\<lambda>pattern s. Inr True) ''root'' (PFloat (Finite (3 / 2)))
     (PDict [(''type'', PStr ''decimal'')]) [] = (Inr PNone, [])"
  using decimal_node_returns_none [of "PFloat (Finite (3 / 2))" "[(''type'', PStr ''decimal'')]"]
  by simp

section \<open>Length bounds of zero\<close>

lemma length_checks_zero_bound:
  assumes "map_of len ''minimum'' = Some (PInt 0) \<and> map_of len1 ''minimum'' = None
           \<or> map_of len1 ''minimum'' = map_of len ''minimum''"
    and "map_of len ''maximum'' = Some (PInt 0) \<and> map_of len1 ''maximum'' = None
           \<or> map_of len1 ''maximum'' = map_of len ''maximum''"
  shows "length_checks what path n (PDict len) errs = length_checks what path n (PDict len1) errs"
proof -
  have mn: "(if truthy (dget len ''minimum'') then py_ge (PInt (int n)) (dget len ''minimum'') else Inr True)
          = (if truthy (dget len1 ''minimum'') then py_ge (PInt (int n)) (dget len1 ''minimum'') else Inr True)"
    using assms(1) by (auto simp: dget_def)
  have mx: "(if truthy (dget len ''maximum'') then py_le (PInt (int n)) (dget len ''maximum'') else Inr True)
          = (if truthy (dget len1 ''maximum'') then py_le (PInt (int n)) (dget len1 ''maximum'') else Inr True)"
    using assms(2) by (auto simp: dget_def)
  show ?thesis
    unfolding length_checks_def Let_def by (simp only: mn mx pyval.simps)
qed

text \<open>
  C10. In the conversion of string and list nodes a length bound of 0 is treated as if
  it were absent. Here \<open>specs\<close> is any schema whose \<open>length\<close> is the object \<open>len\<close>, and
  \<open>specs1\<close> the same schema with \<open>len1\<close> for \<open>len\<close>, where \<open>len1\<close> is \<open>len\<close> without some
  of its bounds that are 0. The two convert every string and every list alike. In
  particular a string of any length is accepted under \<open>length: {maximum: 0}\<close>.
\<close>

theorem zero_length_bound_is_skipped:
  assumes "map_of specs ''length'' = Some (PDict len)"
    and "map_of specs1 ''length'' = Some (PDict len1)"
    and "map_of specs1 ''pattern'' = map_of specs ''pattern''"
    and "map_of specs1 ''value'' = map_of specs ''value''"
    and "map_of len ''minimum'' = Some (PInt 0) \<and> map_of len1 ''minimum'' = None
           \<or> map_of len1 ''minimum'' = map_of len ''minimum''"
    and "map_of len ''maximum'' = Some (PInt 0) \<and> map_of len1 ''maximum'' = None
           \<or> map_of len1 ''maximum'' = map_of len ''maximum''"
  shows "process_string_node re_match path (PStr s) specs errs
           = process_string_node re_match path (PStr s) specs1 errs
         \<and> process_list_node adj path (PList items) specs errs
           = process_list_node adj path (PList items) specs1 errs
         \<and> process_string_node re_match path (PStr s)
             [(''type'', PStr ''string''), (''length'', PDict [(''maximum'', PInt 0)])] errs
           = (Inr (PStr s), errs)"
proof -
  have l: "\<And>what n. length_checks what path n (dget specs ''length'') errs
                  = length_checks what path n (dget specs1 ''length'') errs"
    using length_checks_zero_bound [OF assms(5) assms(6)] assms(1) assms(2)
    by (simp add: dget_def)
  have p: "dget specs1 ''pattern'' = dget specs ''pattern''"
    using assms(3) by (simp add: dget_def)
  have v: "dgetitem specs1 ''value'' = dgetitem specs ''value''"
    using assms(4) by (simp add: dgetitem_def)
  have a: "process_string_node re_match path (PStr s) specs errs
           = process_string_node re_match path (PStr s) specs1 errs"
    unfolding process_string_node_def by (simp only: l p)
  have b: "process_list_node adj path (PList items) specs errs
           = process_list_node adj path (PList items) specs1 errs"
    unfolding process_list_node_def by (simp only: l v)
  have c: "process_string_node re_match path (PStr s)
             [(''type'', PStr ''string''), (''length'', PDict [(''maximum'', PInt 0)])] errs
           = (Inr (PStr s), errs)"
    by (simp add: process_string_node_def length_checks_def dget_def)
  show ?thesis using a b c by simp
qed

theorem zero_length_bound_is_skipped_witness:
  "process_string_node (\<lambda>pattern s. Inr True) ''root'' (PStr ''abc'')
     [(''type'', PStr ''string''), (''length'', PDict [(''minimum'', PInt 2), (''maximum'', PInt 0)])] []
   = process_string_node (\<lambda>pattern s. Inr True) ''root'' (PStr ''abc'')
     [(''type'', PStr ''string''), (''length'', PDict [(''minimum'', PInt 2)])] []
   \<and> process_list_node (adjust_node (\<lambda>pattern s. Inr True)) ''root'' (PList [PBool True])
     [(''type'', PStr ''list''), (''value'', PDict [(''type'', PStr ''flag'')]),
      (''length'', PDict [(''minimum'', PInt 0)])] []
   = process_list_node (adjust_node (\<lambda>pattern s. Inr True)) ''root'' (PList [PBool True])
     [(''type'', PStr ''list''), (''value'', PDict [(''type'', PStr ''flag'')]),
      (''length'', PDict [])] []"
  using zero_length_bound_is_skipped
    [of "[(''type'', PStr ''string''), (''length'', PDict [(''minimum'', PInt 2), (''maximum'', PInt 0)])]"
        "[(''minimum'', PInt 2), (''maximum'', PInt 0)]"
        "[(''type'', PStr ''string''), (''length'', PDict [(''minimum'', PInt 2)])]"
        "[(''minimum'', PInt 2)]"
        "\<lambda>pattern s. Inr True" "''root''" "''abc''" "[]"
        "adjust_node (\<lambda>pattern s. Inr True)" "[PBool True]"]
    zero_length_bound_is_skipped
    [of "[(''type'', PStr ''list''), (''value'', PDict [(''type'', PStr ''flag'')]),
          (''length'', PDict [(''minimum'', PInt 0)])]"
        "[(''minimum'', PInt 0)]"
        "[(''type'', PStr ''list''), (''value'', PDict [(''type'', PStr ''flag'')]),
          (''length'', PDict [])]"
        "[]"
        "\<lambda>pattern s. Inr True" "''root''" "''abc''" "[]"
        "adjust_node (\<lambda>pattern s. Inr True)" "[PBool True]"]
  by simp


section \<open>Integer nodes\<close>

lemma process_integer_node_example: "process_integer_node path (PInt 5)
     [(''type'', PStr ''integer''),
      (''minimum'', PDict [(''value'', PInt 5), (''exclusive'', PBool True)])] errs
   = (Inr PNone, errs @ [ValidationError path ''value must be strictly greater than X''])"
    "process_integer_node path (PInt 6)
     [(''type'', PStr ''integer''),
      (''minimum'', PDict [(''value'', PInt 5), (''exclusive'', PBool True)])] errs
   = (Inr (PInt 6), errs)"
    by (simp_all add: py_eval document_eval)

lemma process_integer_node_minimum: "is_number node \<Longrightarrow> num_of node = Some (Finite x) \<Longrightarrow> num_of bound = Some (Finite b)
      \<Longrightarrow> read_minimum_value specs = Some (PBool e, bound) \<Longrightarrow> read_maximum_value specs = None
      \<Longrightarrow> process_integer_node path node specs errs
          = (if (if e then b < x else b \<le> x) then (py_int node, errs)
             else (Inr PNone, errs @ [ValidationError path
                   (if e then ''value must be strictly greater than X''
                    else ''value must be equal or greater than X'')]))"
    by (simp add: process_integer_node_def integer_maximum_part_def py_gt_def py_ge_def
        py_lt_unfold py_le_unfold)

lemma process_integer_node_maximum: "is_number node \<Longrightarrow> num_of node = Some (Finite x) \<Longrightarrow> num_of bound = Some (Finite b)
      \<Longrightarrow> read_minimum_value specs = None \<Longrightarrow> read_maximum_value specs = Some (PBool e, bound)
      \<Longrightarrow> process_integer_node path node specs errs
          = (if (if e then x < b else x \<le> b) then (py_int node, errs)
             else (Inr PNone, errs @ [ValidationError path
                   (if e then ''value must be strictly less than X''
                    else ''value must be equal or less than X'')]))"
    by (simp add: process_integer_node_def integer_maximum_part_def py_gt_def py_ge_def
        py_lt_unfold py_le_unfold)

lemma process_integer_node_both: "is_number node \<Longrightarrow> num_of node = Some (Finite x) \<Longrightarrow> num_of low = Some (Finite l)
      \<Longrightarrow> num_of high = Some (Finite h)
      \<Longrightarrow> read_minimum_value specs = Some (PBool emin, low)
      \<Longrightarrow> read_maximum_value specs = Some (PBool emax, high)
      \<Longrightarrow> process_integer_node path node specs errs
          = (if \<not> (if emin then l < x else l \<le> x)
             then (Inr PNone, errs @ [ValidationError path
                   (if emin then ''value must be strictly greater than X''
                    else ''value must be equal or greater than X'')])
             else if \<not> (if emax then x < h else x \<le> h)
             then (Inr PNone, errs @ [ValidationError path
                   (if emax then ''value must be strictly less than X''
                    else ''value must be equal or less than X'')])
             else (py_int node, errs))"
    by (simp add: process_integer_node_def integer_maximum_part_def py_gt_def py_ge_def
        py_lt_unfold py_le_unfold)

lemma process_integer_node_unbounded: "is_number node \<Longrightarrow> read_minimum_value specs = None \<Longrightarrow> read_maximum_value specs = None
      \<Longrightarrow> process_integer_node path node specs errs = (py_int node, errs)"
    by (simp add: process_integer_node_def integer_maximum_part_def)

lemma integer_maximum_part_ok:
  assumes "integer_maximum_part path node maximum errs = (Inr v, errs)"
  shows "py_int node = Inr v"
proof (cases maximum)
  case None
  then show ?thesis using assms by (simp add: integer_maximum_part_def)
next
  case (Some p)
  obtain e bound where p: "p = (e, bound)" by (cases p)
  show ?thesis
  proof (cases "truthy e")
    case True
    then show ?thesis using assms Some p
      by (cases "py_lt node bound") (simp_all add: integer_maximum_part_def split: if_splits)
  next
    case False
    then show ?thesis using assms Some p
      by (cases "py_le node bound") (simp_all add: integer_maximum_part_def split: if_splits)
  qed
qed

lemma process_integer_node_ok:
  assumes "process_integer_node path node specs errs = (Inr v, errs)"
  shows "py_int node = Inr v"
proof (cases "is_number node")
  case False
  then show ?thesis using assms by (simp add: process_integer_node_def)
next
  case num: True
  show ?thesis
  proof (cases "read_minimum_value specs")
    case None
    then show ?thesis using assms num
      by (simp add: process_integer_node_def integer_maximum_part_ok)
  next
    case (Some p)
    obtain e bound where p: "p = (e, bound)" by (cases p)
    show ?thesis
    proof (cases "truthy e")
      case True
      then show ?thesis using assms Some p num
        by (cases "py_gt node bound")
           (simp_all add: process_integer_node_def integer_maximum_part_ok split: if_splits)
    next
      case False
      then show ?thesis using assms Some p num
        by (cases "py_ge node bound")
           (simp_all add: process_integer_node_def integer_maximum_part_ok split: if_splits)
    qed
  qed
qed
text \<open>
  C6. Under the schema \<open>{type: integer, minimum: {value: 5, exclusive: true}}\<close> the
  document value 5 gets a bound error and 6 is accepted. In general, for a document
  number \<open>x\<close> and a bound \<open>b\<close> (both finite): an exclusive minimum accepts when \<open>b < x\<close>
  and an inclusive one when \<open>b \<le> x\<close>, an exclusive maximum when \<open>x < b\<close> and an inclusive
  one when \<open>x \<le> b\<close>; a rejected value records the error of that bound and returns
  \<open>None\<close>. Whenever the node returns without recording an error, the adjusted value is
  \<open>int(node)\<close>: the integer itself, or the float truncated towards zero.
  With both bounds, a minimum \<open>l\<close> and a maximum \<open>h\<close>, the minimum is checked first and
  the maximum after it: the value is rejected with the error of the minimum when it
  fails the minimum, otherwise with the error of the maximum when it fails the maximum,
  and accepted as \<open>int(node)\<close> only when it passes both. With no bound every number is
  accepted as \<open>int(node)\<close>.
\<close>

theorem process_integer_node_bounds:
  "process_integer_node path (PInt 5)
     [(''type'', PStr ''integer''),
      (''minimum'', PDict [(''value'', PInt 5), (''exclusive'', PBool True)])] errs
   = (Inr PNone, errs @ [ValidationError path ''value must be strictly greater than X''])
   \<and> process_integer_node path (PInt 6)
     [(''type'', PStr ''integer''),
      (''minimum'', PDict [(''value'', PInt 5), (''exclusive'', PBool True)])] errs
   = (Inr (PInt 6), errs)
   \<and> (is_number node \<and> num_of node = Some (Finite x) \<and> num_of bound = Some (Finite b)
        \<and> read_minimum_value specs = Some (PBool True, bound) \<and> read_maximum_value specs = None
      \<longrightarrow> process_integer_node path node specs errs
          = (if b < x then (py_int node, errs)
             else (Inr PNone, errs @ [ValidationError path ''value must be strictly greater than X''])))
   \<and> (is_number node \<and> num_of node = Some (Finite x) \<and> num_of bound = Some (Finite b)
        \<and> read_minimum_value specs = Some (PBool False, bound) \<and> read_maximum_value specs = None
      \<longrightarrow> process_integer_node path node specs errs
          = (if b \<le> x then (py_int node, errs)
             else (Inr PNone, errs @ [ValidationError path ''value must be equal or greater than X''])))
   \<and> (is_number node \<and> num_of node = Some (Finite x) \<and> num_of bound = Some (Finite b)
        \<and> read_minimum_value specs = None \<and> read_maximum_value specs = Some (PBool True, bound)
      \<longrightarrow> process_integer_node path node specs errs
          = (if x < b then (py_int node, errs)
             else (Inr PNone, errs @ [ValidationError path ''value must be strictly less than X''])))
   \<and> (is_number node \<and> num_of node = Some (Finite x) \<and> num_of bound = Some (Finite b)
        \<and> read_minimum_value specs = None \<and> read_maximum_value specs = Some (PBool False, bound)
      \<longrightarrow> process_integer_node path node specs errs
          = (if x \<le> b then (py_int node, errs)
             else (Inr PNone, errs @ [ValidationError path ''value must be equal or less than X''])))
   \<and> (process_integer_node path node specs errs = (Inr v, errs) \<longrightarrow> py_int node = Inr v)
   \<and> py_int (PInt i) = Inr (PInt i)
   \<and> py_int (PFloat (Finite r)) = Inr (PInt (if 0 \<le> r then \<lfloor>r\<rfloor> else \<lceil>r\<rceil>))
   \<and> (is_number node \<and> num_of node = Some (Finite x) \<and> num_of low = Some (Finite l)
        \<and> num_of high = Some (Finite h)
        \<and> read_minimum_value specs = Some (PBool emin, low)
        \<and> read_maximum_value specs = Some (PBool emax, high)
      \<longrightarrow> process_integer_node path node specs errs
          = (if \<not> (if emin then l < x else l \<le> x)
             then (Inr PNone, errs @ [ValidationError path
                   (if emin then ''value must be strictly greater than X''
                    else ''value must be equal or greater than X'')])
             else if \<not> (if emax then x < h else x \<le> h)
             then (Inr PNone, errs @ [ValidationError path
                   (if emax then ''value must be strictly less than X''
                    else ''value must be equal or less than X'')])
             else (py_int node, errs)))
   \<and> (is_number node \<and> read_minimum_value specs = None \<and> read_maximum_value specs = None
      \<longrightarrow> process_integer_node path node specs errs = (py_int node, errs))"
proof -
  have c3: "is_number node \<and> num_of node = Some (Finite x) \<and> num_of bound = Some (Finite b)
        \<and> read_minimum_value specs = Some (PBool True, bound) \<and> read_maximum_value specs = None
      \<longrightarrow> process_integer_node path node specs errs
          = (if b < x then (py_int node, errs)
             else (Inr PNone, errs @ [ValidationError path ''value must be strictly greater than X'']))"
  proof (intro impI, elim conjE)
    assume a: "is_number node" "num_of node = Some (Finite x)" "num_of bound = Some (Finite b)"
      "read_minimum_value specs = Some (PBool True, bound)" "read_maximum_value specs = None"
    show "process_integer_node path node specs errs
          = (if b < x then (py_int node, errs)
             else (Inr PNone, errs @ [ValidationError path ''value must be strictly greater than X'']))"
      by (simp add: process_integer_node_minimum [OF a])
  qed
  have c4: "is_number node \<and> num_of node = Some (Finite x) \<and> num_of bound = Some (Finite b)
        \<and> read_minimum_value specs = Some (PBool False, bound) \<and> read_maximum_value specs = None
      \<longrightarrow> process_integer_node path node specs errs
          = (if b \<le> x then (py_int node, errs)
             else (Inr PNone, errs @ [ValidationError path ''value must be equal or greater than X'']))"
  proof (intro impI, elim conjE)
    assume a: "is_number node" "num_of node = Some (Finite x)" "num_of bound = Some (Finite b)"
      "read_minimum_value specs = Some (PBool False, bound)" "read_maximum_value specs = None"
    show "process_integer_node path node specs errs
          = (if b \<le> x then (py_int node, errs)
             else (Inr PNone, errs @ [ValidationError path ''value must be equal or greater than X'']))"
      by (simp add: process_integer_node_minimum [OF a])
  qed
  have c5: "is_number node \<and> num_of node = Some (Finite x) \<and> num_of bound = Some (Finite b)
        \<and> read_minimum_value specs = None \<and> read_maximum_value specs = Some (PBool True, bound)
      \<longrightarrow> process_integer_node path node specs errs
          = (if x < b then (py_int node, errs)
             else (Inr PNone, errs @ [ValidationError path ''value must be strictly less than X'']))"
  proof (intro impI, elim conjE)
    assume a: "is_number node" "num_of node = Some (Finite x)" "num_of bound = Some (Finite b)"
      "read_minimum_value specs = None" "read_maximum_value specs = Some (PBool True, bound)"
    show "process_integer_node path node specs errs
          = (if x < b then (py_int node, errs)
             else (Inr PNone, errs @ [ValidationError path ''value must be strictly less than X'']))"
      by (simp add: process_integer_node_maximum [OF a])
  qed
  have c6: "is_number node \<and> num_of node = Some (Finite x) \<and> num_of bound = Some (Finite b)
        \<and> read_minimum_value specs = None \<and> read_maximum_value specs = Some (PBool False, bound)
      \<longrightarrow> process_integer_node path node specs errs
          = (if x \<le> b then (py_int node, errs)
             else (Inr PNone, errs @ [ValidationError path ''value must be equal or less than X'']))"
  proof (intro impI, elim conjE)
    assume a: "is_number node" "num_of node = Some (Finite x)" "num_of bound = Some (Finite b)"
      "read_minimum_value specs = None" "read_maximum_value specs = Some (PBool False, bound)"
    show "process_integer_node path node specs errs
          = (if x \<le> b then (py_int node, errs)
             else (Inr PNone, errs @ [ValidationError path ''value must be equal or less than X'']))"
      by (simp add: process_integer_node_maximum [OF a])
  qed
  have c7: "process_integer_node path node specs errs = (Inr v, errs) \<longrightarrow> py_int node = Inr v"
    by (rule impI) (rule process_integer_node_ok)
  have c8: "py_int (PInt i) = Inr (PInt i)"
    by simp
  have c9: "py_int (PFloat (Finite r)) = Inr (PInt (if 0 \<le> r then \<lfloor>r\<rfloor> else \<lceil>r\<rceil>))"
    by (simp add: trunc_def)
  have c10: "is_number node \<and> num_of node = Some (Finite x) \<and> num_of low = Some (Finite l)
        \<and> num_of high = Some (Finite h)
        \<and> read_minimum_value specs = Some (PBool emin, low)
        \<and> read_maximum_value specs = Some (PBool emax, high)
      \<longrightarrow> process_integer_node path node specs errs
          = (if \<not> (if emin then l < x else l \<le> x)
             then (Inr PNone, errs @ [ValidationError path
                   (if emin then ''value must be strictly greater than X''
                    else ''value must be equal or greater than X'')])
             else if \<not> (if emax then x < h else x \<le> h)
             then (Inr PNone, errs @ [ValidationError path
                   (if emax then ''value must be strictly less than X''
                    else ''value must be equal or less than X'')])
             else (py_int node, errs))"
  proof (intro impI, elim conjE)
    assume a: "is_number node" "num_of node = Some (Finite x)" "num_of low = Some (Finite l)"
      "num_of high = Some (Finite h)" "read_minimum_value specs = Some (PBool emin, low)"
      "read_maximum_value specs = Some (PBool emax, high)"
    show "process_integer_node path node specs errs
          = (if \<not> (if emin then l < x else l \<le> x)
             then (Inr PNone, errs @ [ValidationError path
                   (if emin then ''value must be strictly greater than X''
                    else ''value must be equal or greater than X'')])
             else if \<not> (if emax then x < h else x \<le> h)
             then (Inr PNone, errs @ [ValidationError path
                   (if emax then ''value must be strictly less than X''
                    else ''value must be equal or less than X'')])
             else (py_int node, errs))"
      by (rule process_integer_node_both [OF a])
  qed
  have c11: "is_number node \<and> read_minimum_value specs = None \<and> read_maximum_value specs = None
      \<longrightarrow> process_integer_node path node specs errs = (py_int node, errs)"
  proof (intro impI, elim conjE)
    assume a: "is_number node" "read_minimum_value specs = None" "read_maximum_value specs = None"
    show "process_integer_node path node specs errs = (py_int node, errs)"
      by (rule process_integer_node_unbounded [OF a])
  qed
  show ?thesis
    by (intro conjI process_integer_node_example c3 c4 c5 c6 c7 c8 c9 c10 c11)
qed


theorem process_integer_node_bounds_witness:
  "process_integer_node ''root'' (PFloat (Finite (11 / 2)))
     [(''type'', PStr ''integer''), (''minimum'', PDict [(''value'', PInt 5), (''exclusive'', PBool True)])] []
   = (Inr (PInt 5), [])
   \<and> process_integer_node ''root'' (PInt 5)
     [(''type'', PStr ''integer''), (''minimum'', PInt 5)] []
   = (Inr (PInt 5), [])
   \<and> process_integer_node ''root'' (PInt 5)
     [(''type'', PStr ''integer''), (''maximum'', PDict [(''value'', PInt 5), (''exclusive'', PBool True)])] []
   = (Inr PNone, [ValidationError ''root'' ''value must be strictly less than X''])
   \<and> process_integer_node ''root'' (PInt 5)
     [(''type'', PStr ''integer''), (''maximum'', PInt 5)] []
   = (Inr (PInt 5), [])
   \<and> process_integer_node ''root'' (PInt 10)
     [(''type'', PStr ''integer''), (''minimum'', PInt 1), (''maximum'', PInt 3)] []
   = (Inr PNone, [ValidationError ''root'' ''value must be equal or less than X''])
   \<and> process_integer_node ''root'' (PInt 2)
     [(''type'', PStr ''integer''), (''minimum'', PInt 1),
      (''maximum'', PDict [(''value'', PInt 3), (''exclusive'', PBool True)])] []
   = (Inr (PInt 2), [])
   \<and> process_integer_node ''root'' (PInt 0)
     [(''type'', PStr ''integer''), (''minimum'', PInt 1), (''maximum'', PInt 3)] []
   = (Inr PNone, [ValidationError ''root'' ''value must be equal or greater than X''])
   \<and> process_integer_node ''root'' (PInt (- 7)) [(''type'', PStr ''integer'')] []
   = (Inr (PInt (- 7)), [])"
proof -
  have fl: "\<lfloor>11 / 2 :: rat\<rfloor> = 5"
    by (rule floor_unique) simp_all
  note rd = read_minimum_value_def read_maximum_value_def read_bound_value_def dget_def trunc_def fl
  have w1: "process_integer_node ''root'' (PFloat (Finite (11 / 2)))
     [(''type'', PStr ''integer''), (''minimum'', PDict [(''value'', PInt 5), (''exclusive'', PBool True)])] []
   = (Inr (PInt 5), [])"
    using process_integer_node_bounds [where node = "PFloat (Finite (11 / 2))" and x = "11 / 2" and bound = "PInt 5" and b = 5
        and path = "''root''" and errs = "[]"
        and specs = "[(''type'', PStr ''integer''), (''minimum'', PDict [(''value'', PInt 5), (''exclusive'', PBool True)])]",
        THEN conjunct2, THEN conjunct2, THEN conjunct1]
    by (simp add: rd)
  have w2: "process_integer_node ''root'' (PInt 5)
     [(''type'', PStr ''integer''), (''minimum'', PInt 5)] []
   = (Inr (PInt 5), [])"
    using process_integer_node_bounds [where node = "PInt 5" and x = 5 and bound = "PInt 5" and b = 5
        and path = "''root''" and errs = "[]"
        and specs = "[(''type'', PStr ''integer''), (''minimum'', PInt 5)]",
        THEN conjunct2, THEN conjunct2, THEN conjunct2, THEN conjunct1]
    by (simp add: rd)
  have w3: "process_integer_node ''root'' (PInt 5)
     [(''type'', PStr ''integer''), (''maximum'', PDict [(''value'', PInt 5), (''exclusive'', PBool True)])] []
   = (Inr PNone, [ValidationError ''root'' ''value must be strictly less than X''])"
    using process_integer_node_bounds [where node = "PInt 5" and x = 5 and bound = "PInt 5" and b = 5
        and path = "''root''" and errs = "[]"
        and specs = "[(''type'', PStr ''integer''), (''maximum'', PDict [(''value'', PInt 5), (''exclusive'', PBool True)])]",
        THEN conjunct2, THEN conjunct2, THEN conjunct2, THEN conjunct2,
        THEN conjunct1]
    by (simp add: rd)
  have w4: "process_integer_node ''root'' (PInt 5)
     [(''type'', PStr ''integer''), (''maximum'', PInt 5)] []
   = (Inr (PInt 5), [])"
    using process_integer_node_bounds [where node = "PInt 5" and x = 5 and bound = "PInt 5" and b = 5
        and path = "''root''" and errs = "[]"
        and specs = "[(''type'', PStr ''integer''), (''maximum'', PInt 5)]",
        THEN conjunct2, THEN conjunct2, THEN conjunct2, THEN conjunct2,
        THEN conjunct2, THEN conjunct1]
    by (simp add: rd)
  have w5: "process_integer_node ''root'' (PInt 10)
     [(''type'', PStr ''integer''), (''minimum'', PInt 1), (''maximum'', PInt 3)] []
   = (Inr PNone, [ValidationError ''root'' ''value must be equal or less than X''])"
    using process_integer_node_bounds [where node = "PInt 10" and x = 10 and low = "PInt 1" and l = 1
        and emin = False and emax = False
        and high = "PInt 3" and h = 3 and path = "''root''" and errs = "[]"
        and specs = "[(''type'', PStr ''integer''), (''minimum'', PInt 1), (''maximum'', PInt 3)]",
        THEN conjunct2, THEN conjunct2, THEN conjunct2, THEN conjunct2, THEN conjunct2, THEN conjunct2, THEN conjunct2, THEN conjunct2, THEN conjunct2, THEN conjunct1]
    by (simp add: rd)
  have w6: "process_integer_node ''root'' (PInt 2)
     [(''type'', PStr ''integer''), (''minimum'', PInt 1),
      (''maximum'', PDict [(''value'', PInt 3), (''exclusive'', PBool True)])] []
   = (Inr (PInt 2), [])"
    using process_integer_node_bounds [where node = "PInt 2" and x = 2 and low = "PInt 1" and l = 1
        and emin = False and emax = True
        and high = "PInt 3" and h = 3 and path = "''root''" and errs = "[]"
        and specs = "[(''type'', PStr ''integer''), (''minimum'', PInt 1),
      (''maximum'', PDict [(''value'', PInt 3), (''exclusive'', PBool True)])]",
        THEN conjunct2, THEN conjunct2, THEN conjunct2, THEN conjunct2, THEN conjunct2, THEN conjunct2, THEN conjunct2, THEN conjunct2, THEN conjunct2, THEN conjunct1]
    by (simp add: rd)
  have w7: "process_integer_node ''root'' (PInt 0)
     [(''type'', PStr ''integer''), (''minimum'', PInt 1), (''maximum'', PInt 3)] []
   = (Inr PNone, [ValidationError ''root'' ''value must be equal or greater than X''])"
    using process_integer_node_bounds [where node = "PInt 0" and x = 0 and low = "PInt 1" and l = 1
        and emin = False and emax = False
        and high = "PInt 3" and h = 3 and path = "''root''" and errs = "[]"
        and specs = "[(''type'', PStr ''integer''), (''minimum'', PInt 1), (''maximum'', PInt 3)]",
        THEN conjunct2, THEN conjunct2, THEN conjunct2, THEN conjunct2, THEN conjunct2, THEN conjunct2, THEN conjunct2, THEN conjunct2, THEN conjunct2, THEN conjunct1]
    by (simp add: rd)
  have w8: "process_integer_node ''root'' (PInt (- 7)) [(''type'', PStr ''integer'')] []
   = (Inr (PInt (- 7)), [])"
    using process_integer_node_bounds [where node = "PInt (- 7)" and path = "''root''" and errs = "[]"
        and specs = "[(''type'', PStr ''integer'')]",
        THEN conjunct2, THEN conjunct2, THEN conjunct2, THEN conjunct2, THEN conjunct2, THEN conjunct2, THEN conjunct2, THEN conjunct2, THEN conjunct2, THEN conjunct2]
    by (simp add: rd)
  show ?thesis by (intro conjI w1 w2 w3 w4 w5 w6 w7 w8)
qed



section \<open>Map nodes\<close>

text \<open>Facts about the loop of \<open>process_map_node\<close> over the declared fields.\<close>

lemma map_of_dset: "map_of (dset acc k v) k1 = (if k1 = k then Some v else map_of acc k1)"
proof (cases "has_key acc k")
  case True
  have "map_of (map (\<lambda>(ka, va). if ka = k then (ka, v) else (ka, va)) acc) k1
        = (if k1 = k then (if has_key acc k then Some v else None) else map_of acc k1)"
    by (induction acc) (auto simp: has_key_def)
  then show ?thesis using True by (simp add: dset_def)
next
  case False
  then have "map_of acc k = None" by (simp add: has_key_def)
  then show ?thesis using False by (auto simp: dset_def map_add_def split: option.splits)
qed

lemma keys_dset_new: "\<not> has_key acc k \<Longrightarrow> map fst (dset acc k v) = map fst acc @ [k]"
  by (simp add: dset_def)

lemma has_key_iff: "has_key d k \<longleftrightarrow> k \<in> fst ` set d"
  by (simp add: has_key_def map_of_eq_None_iff)

lemma map_items_loop_keys:
  assumes "map_items_loop adj path d fs acc errs = (Inr kvs, errs1)"
    and "distinct (map fst fs)" and "fst ` set fs \<inter> fst ` set acc = {}"
  shows "map fst kvs = map fst acc @ filter (has_key d) (map fst fs)"
  using assms
proof (induction fs arbitrary: acc errs)
  case Nil
  then show ?case by simp
next
  case (Cons f rest)
  obtain key fspec where f: "f = (key, fspec)" by (cases f)
  show ?case
  proof (cases "has_key d key")
    case False
    then have "map_items_loop adj path d rest acc errs = (Inr kvs, errs1)"
      using Cons.prems(1) f by simp
    moreover have "distinct (map fst rest)" "fst ` set rest \<inter> fst ` set acc = {}"
      using Cons.prems(2,3) by auto
    ultimately have "map fst kvs = map fst acc @ filter (has_key d) (map fst rest)"
      by (rule Cons.IH)
    then show ?thesis using False f by simp
  next
    case True
    obtain r errs2 where a: "adj (path @ ''.'' @ key) (dget d key) fspec errs = (r, errs2)"
      by (cases "adj (path @ ''.'' @ key) (dget d key) fspec errs")
    show ?thesis
    proof (cases r)
      case (Inl e)
      then show ?thesis using Cons.prems(1) f True a by simp
    next
      case (Inr v)
      then have l: "map_items_loop adj path d rest (dset acc key v) errs2 = (Inr kvs, errs1)"
        using Cons.prems(1) f True a by simp
      have nk: "\<not> has_key acc key"
        using Cons.prems(3) f by (auto simp: has_key_iff)
      have ks: "map fst (dset acc key v) = map fst acc @ [key]"
        using nk by (rule keys_dset_new)
      have d1: "distinct (map fst rest)" using Cons.prems(2) by simp
      have d2: "fst ` set rest \<inter> fst ` set (dset acc key v) = {}"
      proof -
        have "fst ` set (dset acc key v) = set (map fst (dset acc key v))" by simp
        also have "\<dots> = insert key (fst ` set acc)" unfolding ks by simp
        finally show ?thesis using Cons.prems(2,3) f by auto
      qed
      have "map fst kvs = map fst (dset acc key v) @ filter (has_key d) (map fst rest)"
        using l d1 d2 by (rule Cons.IH)
      then show ?thesis using ks True f by simp
    qed
  qed
qed

lemma map_items_loop_untouched:
  assumes "map_items_loop adj path d fs acc errs = (Inr kvs, errs1)" and "k \<notin> fst ` set fs"
  shows "map_of kvs k = map_of acc k"
  using assms
proof (induction fs arbitrary: acc errs)
  case Nil
  then show ?case by simp
next
  case (Cons f rest)
  obtain key fspec where f: "f = (key, fspec)" by (cases f)
  have kr: "k \<notin> fst ` set rest" and kk: "k \<noteq> key" using Cons.prems(2) f by auto
  show ?case
  proof (cases "has_key d key")
    case False
    then have "map_items_loop adj path d rest acc errs = (Inr kvs, errs1)"
      using Cons.prems(1) f by simp
    then show ?thesis using kr by (rule Cons.IH)
  next
    case True
    obtain r errs2 where a: "adj (path @ ''.'' @ key) (dget d key) fspec errs = (r, errs2)"
      by (cases "adj (path @ ''.'' @ key) (dget d key) fspec errs")
    show ?thesis
    proof (cases r)
      case (Inl e)
      then show ?thesis using Cons.prems(1) f True a by simp
    next
      case (Inr v)
      then have "map_items_loop adj path d rest (dset acc key v) errs2 = (Inr kvs, errs1)"
        using Cons.prems(1) f True a by simp
      then have "map_of kvs k = map_of (dset acc key v) k" using kr by (rule Cons.IH)
      then show ?thesis using kk by (simp add: map_of_dset)
    qed
  qed
qed

lemma adjust_node_optional_null:
  assumes "map_of fspec ''option'' = Some opt" and "truthy opt"
  shows "adjust_node re_match p PNone (PDict fspec) e = (Inr PNone, e)"
  using assms by (simp add: adjust_node.simps)

lemma map_items_loop_optional_null:
  assumes "map_items_loop (adjust_node re_match) path d fs acc errs = (Inr kvs, errs1)"
    and "distinct (map fst fs)" and "(k, PDict fspec) \<in> set fs"
    and "map_of fspec ''option'' = Some opt" and "truthy opt" and "map_of d k = Some PNone"
  shows "map_of kvs k = Some PNone"
  using assms(1,2,3)
proof (induction fs arbitrary: acc errs)
  case Nil
  then show ?case by simp
next
  case (Cons f rest)
  obtain key fs1 where f: "f = (key, fs1)" by (cases f)
  show ?case
  proof (cases "key = k")
    case True
    have kr: "k \<notin> fst ` set rest" using Cons.prems(2) f True by auto
    then have "(k, PDict fspec) \<notin> set rest" by force
    then have fs1: "fs1 = PDict fspec" using Cons.prems(3) f True by auto
    have hk: "has_key d k" using assms(6) by (simp add: has_key_def)
    have dg: "dget d k = PNone" using assms(6) by (simp add: dget_def)
    have "adjust_node re_match (path @ ''.'' @ k) PNone (PDict fspec) errs = (Inr PNone, errs)"
      using assms(4,5) by (rule adjust_node_optional_null)
    then have "map_items_loop (adjust_node re_match) path d rest (dset acc k PNone) errs = (Inr kvs, errs1)"
      using Cons.prems(1) f True fs1 hk dg by simp
    then have "map_of kvs k = map_of (dset acc k PNone) k"
      using kr by (rule map_items_loop_untouched)
    then show ?thesis by (simp add: map_of_dset)
  next
    case False
    then have m: "(k, PDict fspec) \<in> set rest" using Cons.prems(3) f by auto
    have d1: "distinct (map fst rest)" using Cons.prems(2) by simp
    show ?thesis
    proof (cases "has_key d key")
      case nk: False
      then have "map_items_loop (adjust_node re_match) path d rest acc errs = (Inr kvs, errs1)"
        using Cons.prems(1) f by simp
      then show ?thesis using d1 m by (rule Cons.IH)
    next
      case hk: True
      obtain r errs2 where a: "adjust_node re_match (path @ ''.'' @ key) (dget d key) fs1 errs = (r, errs2)"
        by (cases "adjust_node re_match (path @ ''.'' @ key) (dget d key) fs1 errs")
      show ?thesis
      proof (cases r)
        case (Inl e)
        then show ?thesis using Cons.prems(1) f hk a by simp
      next
        case (Inr v)
        then have "map_items_loop (adjust_node re_match) path d rest (dset acc key v) errs2 = (Inr kvs, errs1)"
          using Cons.prems(1) f hk a by simp
        then show ?thesis using d1 m by (rule Cons.IH)
      qed
    qed
  qed
qed

lemma map_of_filter_keys:
  "k \<in> K \<Longrightarrow> map_of (filter (\<lambda>kv. fst kv \<in> K) d) k = map_of d k"
  by (induction d) auto

lemma map_items_loop_document_cong:
  assumes "\<And>k. k \<in> fst ` set fs \<Longrightarrow> map_of d1 k = map_of d k"
  shows "map_items_loop adj path d1 fs acc errs = map_items_loop adj path d fs acc errs"
  using assms
proof (induction fs arbitrary: acc errs)
  case Nil
  then show ?case by simp
next
  case (Cons f rest)
  obtain key fspec where f: "f = (key, fspec)" by (cases f)
  have k: "map_of d1 key = map_of d key" using Cons.prems f by simp
  have h: "has_key d1 key = has_key d key" "dget d1 key = dget d key"
    using k by (simp_all add: has_key_def dget_def)
  have t: "\<And>a e. map_items_loop adj path d1 rest a e = map_items_loop adj path d rest a e"
    using Cons.IH Cons.prems by simp
  show ?case unfolding f by (simp only: map_items_loop.simps h t)
qed


text \<open>
  C5. For a map schema with the declared fields \<open>fs\<close> and a document object \<open>d\<close>, when
  the conversion of the node returns a value: the adjusted value is an object whose keys
  are the declared fields that are present in the document, in the order of the schema
  (so a declared field that is absent is left out, not defaulted); a declared optional
  field that is present as null is in it with the value \<open>None\<close>; and the document
  without its undeclared fields converts to the same value with the same diagnostics,
  so the undeclared fields are dropped and nothing is recorded for them. A null at an
  optional node records no error. The two examples of the spec follow: under
  \<open>{type: map, fields: {x: {type: flag, option: true}}}\<close> the document \<open>{}\<close> converts to
  \<open>{}\<close> and \<open>{x: null}\<close> to \<open>{x: None}\<close>, both without an error.
\<close>

theorem process_map_node_fields:
  assumes F: "dgetitem specs ''fields'' = Inr (PDict fs)" and D: "distinct (map fst fs)"
    and R: "process_map_node (adjust_node re_match) path (PDict d) specs errs = (Inr v, errs1)"
  shows "(\<exists>kvs. v = PDict kvs \<and> map fst kvs = filter (has_key d) (map fst fs)
            \<and> (\<forall>k fspec opt. (k, PDict fspec) \<in> set fs \<and> map_of fspec ''option'' = Some opt
                    \<and> truthy opt \<and> map_of d k = Some PNone
                  \<longrightarrow> map_of kvs k = Some PNone))
         \<and> process_map_node (adjust_node re_match) path
               (PDict (filter (\<lambda>kv. fst kv \<in> fst ` set fs) d)) specs errs = (Inr v, errs1)
         \<and> (\<forall>p fspec opt e. map_of fspec ''option'' = Some opt \<and> truthy opt
               \<longrightarrow> adjust_node re_match p PNone (PDict fspec) e = (Inr PNone, e))
         \<and> adjust_node re_match ''root'' (PDict [])
               (PDict [(''type'', PStr ''map''),
                       (''fields'', PDict [(''x'', PDict [(''type'', PStr ''flag''),
                                                          (''option'', PBool True)])])]) errs
             = (Inr (PDict []), errs)
         \<and> adjust_node re_match ''root'' (PDict [(''x'', PNone)])
               (PDict [(''type'', PStr ''map''),
                       (''fields'', PDict [(''x'', PDict [(''type'', PStr ''flag''),
                                                          (''option'', PBool True)])])]) errs
             = (Inr (PDict [(''x'', PNone)]), errs)"
proof -
  obtain kvs where L: "map_items_loop (adjust_node re_match) path d fs [] errs = (Inr kvs, errs1)"
    and v: "v = PDict kvs"
    using R F by (auto simp: process_map_node_def split: prod.splits sum.splits)
  have keys: "map fst kvs = filter (has_key d) (map fst fs)"
    using map_items_loop_keys [OF L D] by simp
  have null: "\<forall>k fspec opt. (k, PDict fspec) \<in> set fs \<and> map_of fspec ''option'' = Some opt
                    \<and> truthy opt \<and> map_of d k = Some PNone
                  \<longrightarrow> map_of kvs k = Some PNone"
    using map_items_loop_optional_null [OF L D] by blast
  have c1: "\<exists>kvs. v = PDict kvs \<and> map fst kvs = filter (has_key d) (map fst fs)
            \<and> (\<forall>k fspec opt. (k, PDict fspec) \<in> set fs \<and> map_of fspec ''option'' = Some opt
                    \<and> truthy opt \<and> map_of d k = Some PNone
                  \<longrightarrow> map_of kvs k = Some PNone)"
    using v keys null by blast
  have "map_items_loop (adjust_node re_match) path (filter (\<lambda>kv. fst kv \<in> fst ` set fs) d) fs [] errs
        = map_items_loop (adjust_node re_match) path d fs [] errs"
    by (rule map_items_loop_document_cong) (rule map_of_filter_keys)
  then have "process_map_node (adjust_node re_match) path
               (PDict (filter (\<lambda>kv. fst kv \<in> fst ` set fs) d)) specs errs
             = process_map_node (adjust_node re_match) path (PDict d) specs errs"
    using F by (simp add: process_map_node_def)
  then have c2: "process_map_node (adjust_node re_match) path
               (PDict (filter (\<lambda>kv. fst kv \<in> fst ` set fs) d)) specs errs = (Inr v, errs1)"
    using R by simp
  have c3: "\<forall>p fspec opt e. map_of fspec ''option'' = Some opt \<and> truthy opt
               \<longrightarrow> adjust_node re_match p PNone (PDict fspec) e = (Inr PNone, e)"
    using adjust_node_optional_null by blast
  have c4: "adjust_node re_match ''root'' (PDict [])
               (PDict [(''type'', PStr ''map''),
                       (''fields'', PDict [(''x'', PDict [(''type'', PStr ''flag''),
                                                          (''option'', PBool True)])])]) errs
             = (Inr (PDict []), errs)"
    by (simp add: py_eval document_eval)
  have c5: "adjust_node re_match ''root'' (PDict [(''x'', PNone)])
               (PDict [(''type'', PStr ''map''),
                       (''fields'', PDict [(''x'', PDict [(''type'', PStr ''flag''),
                                                          (''option'', PBool True)])])]) errs
             = (Inr (PDict [(''x'', PNone)]), errs)"
    by (simp add: py_eval document_eval)
  show ?thesis by (intro conjI c1 c2 c3 c4 c5)
qed

theorem process_map_node_fields_witness:
  "process_map_node (adjust_node (\<lambda>pattern s. Inr True)) ''root''
     (PDict (filter (\<lambda>kv. fst kv \<in> fst ` set [(''x'', PDict [(''type'', PStr ''flag''), (''option'', PBool True)]),
                                                (''y'', PDict [(''type'', PStr ''flag'')])])
               [(''x'', PNone), (''z'', PInt 1)]))
     [(''type'', PStr ''map''),
      (''fields'', PDict [(''x'', PDict [(''type'', PStr ''flag''), (''option'', PBool True)]),
                          (''y'', PDict [(''type'', PStr ''flag'')])])] []
   = (Inr (PDict [(''x'', PNone)]), [])"
proof -
  have F: "dgetitem [(''type'', PStr ''map''),
      (''fields'', PDict [(''x'', PDict [(''type'', PStr ''flag''), (''option'', PBool True)]),
                          (''y'', PDict [(''type'', PStr ''flag'')])])] ''fields''
     = Inr (PDict [(''x'', PDict [(''type'', PStr ''flag''), (''option'', PBool True)]),
                   (''y'', PDict [(''type'', PStr ''flag'')])])"
    by (simp add: dgetitem_def)
  have D: "distinct (map fst [(''x'', PDict [(''type'', PStr ''flag''), (''option'', PBool True)]),
                              (''y'', PDict [(''type'', PStr ''flag'')])])"
    by simp
  have R: "process_map_node (adjust_node (\<lambda>pattern s. Inr True)) ''root''
     (PDict [(''x'', PNone), (''z'', PInt 1)])
     [(''type'', PStr ''map''),
      (''fields'', PDict [(''x'', PDict [(''type'', PStr ''flag''), (''option'', PBool True)]),
                          (''y'', PDict [(''type'', PStr ''flag'')])])] []
   = (Inr (PDict [(''x'', PNone)]), [])"
    by (simp add: py_eval document_eval)
  show ?thesis
    by (rule process_map_node_fields [OF F D R, THEN conjunct2, THEN conjunct1])
qed



section \<open>Unexpected properties of a schema node\<close>

lemma is_unexpected_msg_quoted [simp]: "is_unexpected_msg (quoted k @ '' property is unexpected'')"
  by (simp add: is_unexpected_msg_def)

lemma not_unexpected_literals [simp]:
  "\<not> is_unexpected_msg ''minimum must be lower than maximum''"
  "\<not> is_unexpected_msg (quoted ''values'' @ '' property is missing'')"
  "\<not> is_unexpected_msg (quoted ''value'' @ '' property is missing'')"
  "\<not> is_unexpected_msg (quoted ''fields'' @ '' property is missing'')"
  "\<not> is_unexpected_msg (quoted ''type'' @ '' property is missing'')"
  "\<not> is_unexpected_msg (''value of '' @ quoted ''type'' @ '' is incorrect'')"
  "\<not> is_unexpected_msg ''value must be a dict''"
  by (simp_all add: is_unexpected_msg_def quoted_def)

lemma below_inner: "below (p @ s) e \<Longrightarrow> s \<noteq> [] \<Longrightarrow> inner p e"
proof (cases e)
  case (ValidationError q m)
  assume u: "below (p @ s) e" and s: "s \<noteq> []"
  have t: "take (length p + length s) q = p @ s" using u ValidationError by (simp add: below_def)
  then have "take (length p) (take (length p + length s) q) = p" by simp
  then have a: "take (length p) q = p" by (simp add: min_def)
  have "length (take (length p + length s) q) = length p + length s" using t by simp
  then have "length p + length s \<le> length q" by simp
  then have "q \<noteq> p" using s by auto
  then show ?thesis using a ValidationError by (simp add: inner_def)
qed (simp_all add: below_def)

lemma inner_below: "inner p e \<Longrightarrow> below p e"
  by (cases e) (simp_all add: inner_def below_def)

lemma inner_not_unexpected_at: "inner p e \<Longrightarrow> \<not> is_unexpected_at p e"
  by (cases e) (auto simp: inner_def is_unexpected_at_def)

lemma inner_ext [simp]: "s \<noteq> [] \<Longrightarrow> inner p (ValidationError (p @ s) m)"
  by (simp add: inner_def)

lemma inner_same [simp]: "inner p (ValidationError p m) = (\<not> is_unexpected_msg m)"
  by (simp add: inner_def)

lemma errs_ok_refl [simp]: "errs_ok P c c"
  by (simp add: errs_ok_def)

lemma errs_ok_add_error: "errs_ok P c c1 \<Longrightarrow> P e \<Longrightarrow> errs_ok P c (add_error e c1)"
  by (auto simp: errs_ok_def add_error_def)

lemma errs_ok_add_warning: "errs_ok P c c1 \<Longrightarrow> errs_ok P c (add_warning w c1)"
  by (auto simp: errs_ok_def add_warning_def)

lemma errs_ok_trans: "errs_ok P c c1 \<Longrightarrow> errs_ok P c1 c2 \<Longrightarrow> errs_ok P c c2"
  by (auto simp: errs_ok_def)

lemma errs_ok_mono: "errs_ok P c c1 \<Longrightarrow> (\<And>e. P e \<Longrightarrow> Q e) \<Longrightarrow> errs_ok Q c c1"
  by (auto simp: errs_ok_def list_all_iff)

lemmas errs_ok_intros = errs_ok_add_error errs_ok_add_warning

lemma length_bound_checks_ok:
  assumes "length_bound_checks (p @ ''.length'') name b c = (r, c1)"
  shows "errs_ok (inner p) c c1"
  using assms
  by (auto simp: length_bound_checks_def Let_def split: if_splits sum.splits
      intro!: errs_ok_intros)

lemma validate_length_property_ok:
  assumes "validate_length_property pop p v c = (r, c1)"
  shows "errs_ok (inner p) c c1"
proof (cases "is_number v")
  case True
  then show ?thesis using assms
    by (auto simp: validate_length_property_def Let_def split: if_splits sum.splits
        intro!: errs_ok_intros)
next
  case False
  show ?thesis
  proof (cases v)
    case (PDict d)
    show ?thesis
    proof (cases "filter (\<lambda>k. k \<notin> {''minimum'', ''maximum''}) (map fst d) = []")
      case ex: False
      then show ?thesis using assms PDict
        by (auto simp: validate_length_property_def Let_def intro!: errs_ok_intros)
    next
      case ex: True
      obtain r1 c2 where a: "length_bound_checks (p @ ''.length'') ''minimum'' (dget d ''minimum'') c = (r1, c2)"
        by (cases "length_bound_checks (p @ ''.length'') ''minimum'' (dget d ''minimum'') c")
      have o1: "errs_ok (inner p) c c2" using a by (rule length_bound_checks_ok)
      show ?thesis
      proof (cases r1)
        case (Inl e)
        then show ?thesis using assms PDict ex a o1
          by (simp add: validate_length_property_def Let_def)
      next
        case r1: (Inr u)
        obtain r2 c3 where b: "length_bound_checks (p @ ''.length'') ''maximum'' (dget d ''maximum'') c2 = (r2, c3)"
          by (cases "length_bound_checks (p @ ''.length'') ''maximum'' (dget d ''maximum'') c2")
        have o2: "errs_ok (inner p) c c3"
          using o1 length_bound_checks_ok [OF b] by (rule errs_ok_trans)
        show ?thesis
        proof (cases r2)
          case (Inl e)
          then show ?thesis using assms PDict ex a r1 b o2
            by (simp add: validate_length_property_def Let_def)
        next
          case (Inr u2)
          then show ?thesis using assms PDict ex a r1 b o2
            by (auto simp: validate_length_property_def Let_def split: if_splits sum.splits
                intro!: errs_ok_intros)
        qed
      qed
    qed
  qed (use assms False in \<open>auto simp: validate_length_property_def Let_def intro!: errs_ok_intros\<close>)
qed


lemma validate_minimum_or_maximum_property_ok:
  assumes "validate_minimum_or_maximum_property pop name p v errs = (b, errs1)" and "name \<noteq> []"
  shows "\<exists>new. errs1 = errs @ new \<and> list_all (inner p) new"
proof (cases "is_number v")
  case True
  then show ?thesis using assms by (simp add: validate_minimum_or_maximum_property_def)
next
  case False
  show ?thesis
  proof (cases v)
    case (PDict d)
    then show ?thesis using assms False
      by (auto simp: validate_minimum_or_maximum_property_def Let_def split: if_splits)
  qed (use assms False in \<open>auto simp: validate_minimum_or_maximum_property_def\<close>)
qed

lemma checked_bound_ok:
  assumes "checked_bound warn pop name p block c = (b, c1)" and "name \<noteq> []"
  shows "errs_ok (inner p) c c1"
proof (cases "has_key block name")
  case False
  then show ?thesis using assms by (simp add: checked_bound_def)
next
  case True
  obtain b1 errs1 where v: "validate_minimum_or_maximum_property pop name p (dget block name) (errors c) = (b1, errs1)"
    by (cases "validate_minimum_or_maximum_property pop name p (dget block name) (errors c)")
  obtain new where n: "errs1 = errors c @ new" "list_all (inner p) new"
    using validate_minimum_or_maximum_property_ok [OF v assms(2)] by blast
  have o: "errs_ok (inner p) c (c\<lparr>errors := errs1\<rparr>)"
    using n by (simp add: errs_ok_def)
  show ?thesis using assms(1) True v o
    by (auto simp: checked_bound_def Let_def split: option.splits if_splits prod.splits
        intro!: errs_ok_intros)
qed

lemma minimum_maximum_order_ok:
  assumes "minimum_maximum_order p mn mx c = (r, c1)"
  shows "errs_ok (inner p) c c1"
  using assms
  by (auto simp: minimum_maximum_order_def split: option.splits prod.splits sum.splits if_splits
      intro!: errs_ok_intros)

lemma validate_bounds_ok:
  assumes "(let (minimum, c1) = checked_bound warn pop ''minimum'' p block c;
                (maximum, c2) = checked_bound warn pop ''maximum'' p block c1
            in minimum_maximum_order p minimum maximum c2) = (r, c3)"
  shows "errs_ok (inner p) c c3"
proof -
  obtain mn c1 where a: "checked_bound warn pop ''minimum'' p block c = (mn, c1)"
    by (cases "checked_bound warn pop ''minimum'' p block c")
  obtain mx c2 where b: "checked_bound warn pop ''maximum'' p block c1 = (mx, c2)"
    by (cases "checked_bound warn pop ''maximum'' p block c1")
  have m: "minimum_maximum_order p mn mx c2 = (r, c3)"
    using assms a b by simp
  have "errs_ok (inner p) c c1" using a by (rule checked_bound_ok) simp
  moreover have "errs_ok (inner p) c1 c2" using b by (rule checked_bound_ok) simp
  moreover have "errs_ok (inner p) c2 c3" using m by (rule minimum_maximum_order_ok)
  ultimately show ?thesis by (blast intro: errs_ok_trans)
qed

lemma validate_integer_type_ok:
  "validate_integer_type pop p block c = (r, c1) \<Longrightarrow> errs_ok (inner p) c c1"
  unfolding validate_integer_type_def by (rule validate_bounds_ok)

lemma validate_decimal_type_ok:
  "validate_decimal_type pop p block c = (r, c1) \<Longrightarrow> errs_ok (inner p) c c1"
  unfolding validate_decimal_type_def by (rule validate_bounds_ok)

lemma validate_string_type_ok:
  assumes "validate_string_type pop p block c = (r, c1)"
  shows "errs_ok (inner p) c c1"
proof (cases "has_key block ''length''")
  case False
  then show ?thesis using assms
    by (auto simp: validate_string_type_def Let_def split: if_splits intro!: errs_ok_intros)
next
  case True
  obtain r1 c2 where a: "validate_length_property pop p (dget block ''length'') c = (r1, c2)"
    by (cases "validate_length_property pop p (dget block ''length'') c")
  have o: "errs_ok (inner p) c c2" using a by (rule validate_length_property_ok)
  show ?thesis using assms True a o
    by (cases r1) (auto simp: validate_string_type_def Let_def split: if_splits intro!: errs_ok_intros)
qed

lemma enum_values_loop_ok:
  "enum_values_loop p vs processed c = (r, c1) \<Longrightarrow> errs_ok (inner p) c c1"
proof (induction vs arbitrary: processed c)
  case Nil
  then show ?case by simp
next
  case (Cons v vs)
  show ?case
  proof (cases v)
    case (PStr s)
    have e: "\<And>m. errs_ok (inner p) c (add_error (ValidationError (p @ ''.values'') m) c)"
      by (auto intro!: errs_ok_intros)
    show ?thesis using Cons.prems PStr
      by (auto split: if_splits dest!: Cons.IH intro: errs_ok_trans [OF e])
  qed (use Cons.prems in auto)
qed

lemma validate_enum_type_ok:
  assumes "validate_enum_type p block c = (r, c1)"
  shows "errs_ok (inner p) c c1"
proof (cases "dget block ''values''")
  case (PList vs)
  then show ?thesis using assms
    by (auto simp: validate_enum_type_def Let_def split: if_splits
        intro!: errs_ok_intros dest: enum_values_loop_ok)
qed (use assms in \<open>auto simp: validate_enum_type_def Let_def intro!: errs_ok_intros\<close>)


lemma below_ext_ok:
  assumes "errs_ok (below (p @ s)) c c1" and "s \<noteq> []"
  shows "errs_ok (inner p) c c1"
  using assms(1) by (rule errs_ok_mono) (rule below_inner [OF _ assms(2)])

lemma validate_list_type_ok:
  assumes vb: "\<And>q v c r c1. size v < size (PDict block) \<Longrightarrow> vb q v c = (r, c1) \<Longrightarrow> errs_ok (below q) c c1"
    and "validate_list_type vb pop p block c = (r, c1)"
  shows "errs_ok (inner p) c c1"
proof (cases "truthy (dget block ''value'')")
  case False
  then show ?thesis using assms(2)
    by (auto simp: validate_list_type_def Let_def intro!: errs_ok_intros)
next
  case True
  then have "dget block ''value'' \<noteq> PNone" by auto
  then have sz: "size (dget block ''value'') < size (PDict block)" by (rule size_dget)
  obtain r1 c2 where a: "vb (p @ ''.[]'') (dget block ''value'') c = (r1, c2)"
    by (cases "vb (p @ ''.[]'') (dget block ''value'') c")
  have o: "errs_ok (inner p) c c2"
    using vb [OF sz a] by (rule below_ext_ok) simp
  show ?thesis
  proof (cases r1)
    case (Inl e)
    then show ?thesis using assms(2) True a o by (simp add: validate_list_type_def Let_def)
  next
    case (Inr u)
    show ?thesis
    proof (cases "has_key block ''length''")
      case False
      then show ?thesis using assms(2) True a o Inr by (simp add: validate_list_type_def Let_def)
    next
      case hk: True
      then have "validate_length_property pop p (dget block ''length'') c2 = (r, c1)"
        using assms(2) True a Inr by (simp add: validate_list_type_def Let_def)
      then have "errs_ok (inner p) c2 c1" by (rule validate_length_property_ok)
      then show ?thesis using o by (blast intro: errs_ok_trans)
    qed
  qed
qed

lemma tuple_values_loop_ok:
  assumes vb: "\<And>q v c r c1. v \<in> set vs \<Longrightarrow> vb q v c = (r, c1) \<Longrightarrow> errs_ok (below q) c c1"
    and "tuple_values_loop vb p index vs c = (r, c1)"
  shows "errs_ok (inner p) c c1"
  using assms
proof (induction vs arbitrary: index c)
  case Nil
  then show ?case by simp
next
  case (Cons v vs)
  obtain r1 c2 where a: "vb (p @ ''.('' @ str_of_nat index @ '')'') v c = (r1, c2)"
    by (cases "vb (p @ ''.('' @ str_of_nat index @ '')'') v c")
  have "errs_ok (below (p @ ''.('' @ str_of_nat index @ '')'')) c c2"
    using Cons.prems(1) [of v _ c r1 c2] a by simp
  then have o: "errs_ok (inner p) c c2" by (rule below_ext_ok) simp
  show ?case
  proof (cases r1)
    case (Inl e)
    then show ?thesis using Cons.prems(2) a o by simp
  next
    case (Inr u)
    then have l: "tuple_values_loop vb p (Suc index) vs c2 = (r, c1)"
      using Cons.prems(2) a by simp
    have vb1: "errs_ok (below q) ca cb" if "w \<in> set vs" "vb q w ca = (ra, cb)" for q w ca ra cb
      using Cons.prems(1) [of w q ca ra cb] that by simp
    have "errs_ok (inner p) c2 c1"
      using vb1 l by (rule Cons.IH)
    then show ?thesis using o by (blast intro: errs_ok_trans)
  qed
qed

lemma validate_tuple_type_ok:
  assumes vb: "\<And>q v c r c1. size v < size (PDict block) \<Longrightarrow> vb q v c = (r, c1) \<Longrightarrow> errs_ok (below q) c c1"
    and "validate_tuple_type vb p block c = (r, c1)"
  shows "errs_ok (inner p) c c1"
proof (cases "dget block ''values''")
  case (PList vs)
  have sz: "\<And>v. v \<in> set vs \<Longrightarrow> size v < size (PDict block)"
    using size_dget [of block "''values''"] size_list_elem PList by fastforce
  show ?thesis
  proof (cases "vs = []")
    case True
    then show ?thesis using assms(2) PList
      by (auto simp: validate_tuple_type_def Let_def intro!: errs_ok_intros)
  next
    case False
    then have l: "tuple_values_loop vb p 0 vs c = (r, c1)"
      using assms(2) PList by (simp add: validate_tuple_type_def Let_def)
    have vb1: "errs_ok (below q) ca cb" if "w \<in> set vs" "vb q w ca = (ra, cb)" for q w ca ra cb
      using vb [OF sz [OF that(1)] that(2)] .
    show ?thesis using vb1 l by (rule tuple_values_loop_ok)
  qed
qed (use assms(2) in \<open>auto simp: validate_tuple_type_def Let_def intro!: errs_ok_intros\<close>)

lemma map_fields_loop_ok:
  assumes vb: "\<And>q v c r c1. v \<in> snd ` set fs \<Longrightarrow> vb q v c = (r, c1) \<Longrightarrow> errs_ok (below q) c c1"
    and "map_fields_loop vb p fs c = (r, c1)"
  shows "errs_ok (inner p) c c1"
  using assms
proof (induction fs arbitrary: c)
  case Nil
  then show ?case by simp
next
  case (Cons f fs)
  obtain key v where f: "f = (key, v)" by (cases f)
  have vb1: "errs_ok (below q) ca cb" if "w \<in> snd ` set fs" "vb q w ca = (ra, cb)" for q w ca ra cb
    using Cons.prems(1) [of w q ca ra cb] that by auto
  have ih: "\<And>c2. map_fields_loop vb p fs c2 = (r, c1) \<Longrightarrow> errs_ok (inner p) c2 c1"
    using vb1 by (rule Cons.IH)
  show ?case
  proof (cases "ident_match key")
    case False
    have e: "errs_ok (inner p) c (add_error (ValidationError (p @ ''.fields'')
                        (quoted key @ '' is an incorrect key name'')) c)"
      by (auto intro!: errs_ok_intros)
    have "map_fields_loop vb p fs (add_error (ValidationError (p @ ''.fields'')
                        (quoted key @ '' is an incorrect key name'')) c) = (r, c1)"
      using Cons.prems(2) f False by simp
    then show ?thesis using e ih by (blast intro: errs_ok_trans)
  next
    case True
    obtain r1 c2 where a: "vb (p @ ''.'' @ key) v c = (r1, c2)"
      by (cases "vb (p @ ''.'' @ key) v c")
    have "errs_ok (below (p @ ''.'' @ key)) c c2"
      using Cons.prems(1) [of v _ c r1 c2] a f by simp
    then have o: "errs_ok (inner p) c c2" by (rule below_ext_ok) simp
    show ?thesis
    proof (cases r1)
      case (Inl e)
      then show ?thesis using Cons.prems(2) a o f True by simp
    next
      case (Inr u)
      then have "map_fields_loop vb p fs c2 = (r, c1)"
        using Cons.prems(2) a f True by simp
      then show ?thesis using o ih by (blast intro: errs_ok_trans)
    qed
  qed
qed

lemma validate_map_type_ok:
  assumes vb: "\<And>q v c r c1. size v < size (PDict block) \<Longrightarrow> vb q v c = (r, c1) \<Longrightarrow> errs_ok (below q) c c1"
    and "validate_map_type vb p block c = (r, c1)"
  shows "errs_ok (inner p) c c1"
proof (cases "dget block ''fields''")
  case (PDict fs)
  have sz: "\<And>v. v \<in> snd ` set fs \<Longrightarrow> size v < size (PDict block)"
    using size_dget [of block "''fields''"] size_dict_value PDict by fastforce
  show ?thesis
  proof (cases "fs = []")
    case True
    then show ?thesis using assms(2) PDict
      by (auto simp: validate_map_type_def Let_def intro!: errs_ok_intros)
  next
    case False
    then have l: "map_fields_loop vb p fs c = (r, c1)"
      using assms(2) PDict by (simp add: validate_map_type_def Let_def)
    have vb1: "errs_ok (below q) ca cb" if "w \<in> snd ` set fs" "vb q w ca = (ra, cb)" for q w ca ra cb
      using vb [OF sz [OF that(1)] that(2)] .
    show ?thesis using vb1 l by (rule map_fields_loop_ok)
  qed
qed (use assms(2) in \<open>auto simp: validate_map_type_def Let_def intro!: errs_ok_intros\<close>)

lemma validate_kind_ok:
  assumes vb: "\<And>q v c r c1. size v < size (PDict block) \<Longrightarrow> vb q v c = (r, c1) \<Longrightarrow> errs_ok (below q) c c1"
    and k: "validate_kind vb pop kind p block c = (r, c1)"
  shows "errs_ok (inner p) c c1"
proof -
  consider "kind = ''flag''" | "kind = ''integer''" | "kind = ''decimal''" | "kind = ''string''"
    | "kind = ''enum''" | "kind = ''list''" | "kind = ''tuple''"
    | "kind \<notin> {''flag'', ''integer'', ''decimal'', ''string'', ''enum'', ''list'', ''tuple''}"
    by auto
  then show ?thesis
  proof cases
    case 1
    then show ?thesis using k by (simp add: validate_kind_def validate_flag_type_def)
  next
    case 2
    then have "validate_integer_type pop p block c = (r, c1)" using k by (simp add: validate_kind_def)
    then show ?thesis by (rule validate_integer_type_ok)
  next
    case 3
    then have "validate_decimal_type pop p block c = (r, c1)" using k by (simp add: validate_kind_def)
    then show ?thesis by (rule validate_decimal_type_ok)
  next
    case 4
    then have "validate_string_type pop p block c = (r, c1)" using k by (simp add: validate_kind_def)
    then show ?thesis by (rule validate_string_type_ok)
  next
    case 5
    then have "validate_enum_type p block c = (r, c1)" using k by (simp add: validate_kind_def)
    then show ?thesis by (rule validate_enum_type_ok)
  next
    case 6
    then have "validate_list_type vb pop p block c = (r, c1)" using k by (simp add: validate_kind_def)
    then show ?thesis using vb by (intro validate_list_type_ok [where vb = vb])
  next
    case 7
    then have "validate_tuple_type vb p block c = (r, c1)" using k by (simp add: validate_kind_def)
    then show ?thesis using vb by (intro validate_tuple_type_ok [where vb = vb])
  next
    case 8
    then have "validate_map_type vb p block c = (r, c1)" using k by (simp add: validate_kind_def)
    then show ?thesis using vb by (intro validate_map_type_ok [where vb = vb])
  qed
qed


lemma validate_block_recognized:
  assumes "map_of d ''type'' = Some (PStr kind)" and "kind \<in> set kinds"
  shows "validate_block pop p (PDict d) c =
     (case validate_kind (validate_block pop) pop kind p d
             (if filter (\<lambda>k. k \<notin> set (whitelist kind) \<and> k \<notin> {''type'', ''option''}) (map fst d) \<noteq> []
              then add_error (ValidationError p
                     (quoted (pop (filter (\<lambda>k. k \<notin> set (whitelist kind) \<and> k \<notin> {''type'', ''option''})
                                     (map fst d)))
                      @ '' property is unexpected'')) c
              else c) of
        (Inl e, c2) \<Rightarrow> (Inl e, c2)
      | (Inr u, c2) \<Rightarrow>
          (Inr (), if has_key d ''option'' \<and> \<not> is_bool (dget d ''option'')
                   then add_error (ValidationError (p @ ''.option'') ''value must be a bool'') c2
                   else c2))"
proof -
  have t: "dget d ''type'' = PStr kind" using assms(1) by (simp add: dget_def)
  have ne: "kind \<noteq> []" using assms(2) by (auto simp: kinds_def)
  show ?thesis
    by (subst validate_block.simps) (simp add: t ne assms(2) Let_def)
qed

lemma validate_block_below:
  "validate_block pop p b c = (r, c1) \<Longrightarrow> errs_ok (below p) c c1"
proof (induction b arbitrary: p c r c1 rule: measure_induct_rule [of size])
  case (less b)
  have here: "errs_ok (below p) c (add_error (ValidationError p m) c)" for m
    by (rule errs_ok_add_error) (simp_all add: below_def)
  show ?case
  proof (cases b)
    case (PDict d)
    show ?thesis
    proof (cases "\<exists>kind. map_of d ''type'' = Some (PStr kind) \<and> kind \<in> set kinds")
      case False
      have r: "validate_block pop p (PDict d) c = (r, c1)" using less.prems PDict by simp
      show ?thesis
      proof (cases "dget d ''type''")
        case (PStr kind)
        then have "kind \<notin> set kinds \<or> kind = []" using False by (auto simp: dget_def split: option.splits)
        then have "kind \<notin> set kinds" by (auto simp: kinds_def)
        then show ?thesis using r PStr here
          by (subst (asm) validate_block.simps) (auto simp: Let_def split: if_splits)
      qed (use r here in \<open>subst (asm) validate_block.simps, auto simp: Let_def split: if_splits\<close>)+
    next
      case True
      then obtain kind where T: "map_of d ''type'' = Some (PStr kind)" and K: "kind \<in> set kinds"
        by blast
      define c0 where "c0 = (if filter (\<lambda>k. k \<notin> set (whitelist kind) \<and> k \<notin> {''type'', ''option''}) (map fst d) \<noteq> []
              then add_error (ValidationError p
                     (quoted (pop (filter (\<lambda>k. k \<notin> set (whitelist kind) \<and> k \<notin> {''type'', ''option''})
                                     (map fst d)))
                      @ '' property is unexpected'')) c
              else c)"
      have o0: "errs_ok (below p) c c0" unfolding c0_def using here by simp
      obtain rk c2 where k: "validate_kind (validate_block pop) pop kind p d c0 = (rk, c2)"
        by (cases "validate_kind (validate_block pop) pop kind p d c0")
      have vb: "errs_ok (below q) ca cb" if "size v < size (PDict d)" "validate_block pop q v ca = (ra, cb)"
        for q v ca ra cb
        using less.IH [of v q ca ra cb] that PDict by simp
      have "errs_ok (inner p) c0 c2" using vb k by (rule validate_kind_ok)
      then have o2: "errs_ok (below p) c0 c2" by (rule errs_ok_mono) (rule inner_below)
      have o02: "errs_ok (below p) c c2" using o0 o2 by (rule errs_ok_trans)
      have opt: "errs_ok (below p) c (add_error (ValidationError (p @ ''.option'') ''value must be a bool'') c2)"
        using o02 by (rule errs_ok_add_error) (simp add: below_def)
      have "validate_block pop p (PDict d) c = (r, c1)" using less.prems PDict by simp
      then show ?thesis
        unfolding validate_block_recognized [OF T K] c0_def [symmetric] k
        using o02 opt by (cases rk) (auto split: if_splits)
    qed
  qed (use less.prems here in \<open>subst (asm) validate_block.simps, auto\<close>)+
qed


text \<open>
  C7. For a schema node that is a mapping with a recognized \<open>type\<close>, whatever the number
  of keys outside the whitelist of the kind, \<open>type\<close> and \<open>option\<close>: the validation of the
  node (its nested blocks included) appends exactly one unexpected-property error at the
  path of the node when there is such a key, and none when there is none. After that
  error the checks of the kind run, on the collector that already holds it, and when
  they return the \<open>option\<close> check runs and appends its error if \<open>option\<close> is present and
  not a bool. If a check of the kind raises, the exception leaves \<open>validate_block\<close>.
\<close>

theorem validate_block_one_unexpected:
  assumes T: "map_of d ''type'' = Some (PStr kind)" and K: "kind \<in> set kinds"
    and R: "validate_block pop path (PDict d) c = (r, c1)"
  shows "(\<exists>new. errors c1 = errors c @ new
            \<and> length (filter (is_unexpected_at path) new)
              = (if filter (\<lambda>k. k \<notin> set (whitelist kind) \<and> k \<notin> {''type'', ''option''}) (map fst d) = []
                 then 0 else 1))
         \<and> (\<exists>rk c2. validate_kind (validate_block pop) pop kind path d
                  (if filter (\<lambda>k. k \<notin> set (whitelist kind) \<and> k \<notin> {''type'', ''option''}) (map fst d) \<noteq> []
                   then add_error (ValidationError path
                     (quoted (pop (filter (\<lambda>k. k \<notin> set (whitelist kind) \<and> k \<notin> {''type'', ''option''})
                                     (map fst d)))
                      @ '' property is unexpected'')) c
                   else c) = (rk, c2)
              \<and> (case rk of
                    Inl e \<Rightarrow> r = Inl e \<and> c1 = c2
                  | Inr u \<Rightarrow> r = Inr ()
                      \<and> c1 = (if has_key d ''option'' \<and> \<not> is_bool (dget d ''option'')
                              then add_error (ValidationError (path @ ''.option'')
                                                ''value must be a bool'') c2
                              else c2)))"
proof -
  define extra where
    "extra = filter (\<lambda>k. k \<notin> set (whitelist kind) \<and> k \<notin> {''type'', ''option''}) (map fst d)"
  define c0 where "c0 = (if extra \<noteq> []
      then add_error (ValidationError path (quoted (pop extra) @ '' property is unexpected'')) c
      else c)"
  obtain rk c2 where k: "validate_kind (validate_block pop) pop kind path d c0 = (rk, c2)"
    by (cases "validate_kind (validate_block pop) pop kind path d c0")
  have eq: "(case (rk, c2) of
        (Inl e, c2) \<Rightarrow> (Inl e, c2)
      | (Inr u, c2) \<Rightarrow>
          (Inr (), if has_key d ''option'' \<and> \<not> is_bool (dget d ''option'')
                   then add_error (ValidationError (path @ ''.option'') ''value must be a bool'') c2
                   else c2)) = (r, c1)"
    using R unfolding validate_block_recognized [OF T K] extra_def [symmetric] c0_def [symmetric] k .
  have shape: "case rk of
                    Inl e \<Rightarrow> r = Inl e \<and> c1 = c2
                  | Inr u \<Rightarrow> r = Inr ()
                      \<and> c1 = (if has_key d ''option'' \<and> \<not> is_bool (dget d ''option'')
                              then add_error (ValidationError (path @ ''.option'')
                                                ''value must be a bool'') c2
                              else c2)"
    using eq by (cases rk) auto
  have vb: "errs_ok (below q) ca cb" if "validate_block pop q v ca = (ra, cb)" for q v ca ra cb
    using that by (rule validate_block_below)
  have "errs_ok (inner path) c0 c2" using vb k by (rule validate_kind_ok)
  then obtain knew where kn: "errors c2 = errors c0 @ knew" "list_all (inner path) knew"
    by (auto simp: errs_ok_def)
  have kf: "filter (is_unexpected_at path) knew = []"
    using kn(2) by (auto simp: list_all_iff filter_empty_conv dest: inner_not_unexpected_at)
  obtain u where u: "errors c0 = errors c @ u"
    "length (filter (is_unexpected_at path) u) = (if extra = [] then 0 else 1)"
    unfolding c0_def by (cases "extra = []") (auto simp: add_error_def is_unexpected_at_def)
  obtain o1 where o1: "errors c1 = errors c2 @ o1" "filter (is_unexpected_at path) o1 = []"
    using shape by (cases rk) (auto simp: add_error_def is_unexpected_at_def split: if_splits)
  have "errors c1 = errors c @ (u @ knew @ o1)" using u(1) kn(1) o1(1) by simp
  moreover have "length (filter (is_unexpected_at path) (u @ knew @ o1)) = (if extra = [] then 0 else 1)"
    using u(2) kf o1(2) by simp
  ultimately have first: "\<exists>new. errors c1 = errors c @ new
            \<and> length (filter (is_unexpected_at path) new) = (if extra = [] then 0 else 1)"
    by blast
  have second: "\<exists>rk c2. validate_kind (validate_block pop) pop kind path d c0 = (rk, c2)
              \<and> (case rk of
                    Inl e \<Rightarrow> r = Inl e \<and> c1 = c2
                  | Inr u \<Rightarrow> r = Inr ()
                      \<and> c1 = (if has_key d ''option'' \<and> \<not> is_bool (dget d ''option'')
                              then add_error (ValidationError (path @ ''.option'')
                                                ''value must be a bool'') c2
                              else c2))"
    using k shape by blast
  show ?thesis
    using first second unfolding c0_def extra_def by (rule conjI)
qed


theorem validate_block_one_unexpected_witness:
  "length (filter (is_unexpected_at ''root'')
     [ValidationError ''root'' (quoted ''pattern'' @ '' property is unexpected''),
      ValidationError ''root.option'' ''value must be a bool'']) = 1"
proof -
  have T: "map_of [(''type'', PStr ''flag''), (''pattern'', PStr ''x''), (''extra'', PInt 1),
                   (''option'', PInt 3)] ''type'' = Some (PStr ''flag'')"
    by simp
  have K: "''flag'' \<in> set kinds" by (simp add: kinds_def)
  have R: "validate_block hd ''root''
             (PDict [(''type'', PStr ''flag''), (''pattern'', PStr ''x''), (''extra'', PInt 1),
                     (''option'', PInt 3)])
             \<lparr>errors = [], warnings = []\<rparr>
           = (Inr (),
              \<lparr>errors = [ValidationError ''root'' (quoted ''pattern'' @ '' property is unexpected''),
                         ValidationError ''root.option'' ''value must be a bool''],
               warnings = []\<rparr>)"
    by (simp add: py_eval specs_eval)
  show ?thesis
    using validate_block_one_unexpected [OF T K R, THEN conjunct1]
    by (simp add: whitelist_def)
qed



section \<open>Converting an adjusted value again\<close>

text \<open>The converter only appends to the \<open>errors\<close> list.\<close>

lemma grows_refl [simp]: "grows errs errs"
  by (simp add: grows_def)

lemma grows_append [simp]: "grows errs (errs @ new)"
  by (simp add: grows_def)

lemma grows_trans: "grows a b \<Longrightarrow> grows b c \<Longrightarrow> grows a c"
  by (auto simp: grows_def)

lemma grows_antisym: "grows a b \<Longrightarrow> grows b a \<Longrightarrow> b = a"
  by (auto simp: grows_def)

lemma process_flag_node_grows:
  "process_flag_node path node specs errs = (r, errs1) \<Longrightarrow> grows errs errs1"
  by (auto simp: process_flag_node_def split: if_splits)

lemma integer_maximum_part_grows:
  "integer_maximum_part path node maximum errs = (r, errs1) \<Longrightarrow> grows errs errs1"
  by (auto simp: integer_maximum_part_def split: option.splits prod.splits sum.splits if_splits)

lemma process_integer_node_grows:
  "process_integer_node path node specs errs = (r, errs1) \<Longrightarrow> grows errs errs1"
  by (auto simp: process_integer_node_def Let_def
      split: option.splits prod.splits sum.splits if_splits dest: integer_maximum_part_grows)

lemma process_decimal_node_grows:
  "process_decimal_node path node specs errs = (r, errs1) \<Longrightarrow> grows errs errs1"
  by (simp add: process_decimal_node_def)

lemma length_checks_grows:
  "length_checks what path n len errs = Failed errs1 \<Longrightarrow> grows errs errs1"
  by (auto simp: length_checks_def Let_def split: pyval.splits sum.splits if_splits)

lemma process_string_node_grows:
  "process_string_node re_match path node specs errs = (r, errs1) \<Longrightarrow> grows errs errs1"
  by (auto simp: process_string_node_def Let_def
      split: pyval.splits check.splits sum.splits if_splits dest: length_checks_grows)

lemma process_enum_node_grows:
  "process_enum_node path node specs errs = (r, errs1) \<Longrightarrow> grows errs errs1"
  by (auto simp: process_enum_node_def split: pyval.splits sum.splits if_splits)


lemma list_items_loop_grows:
  assumes adj: "\<And>q w s e ra ea. w \<in> set items \<Longrightarrow> adj q w s e = (ra, ea) \<Longrightarrow> grows e ea"
    and "list_items_loop adj path value index items acc errs = (r, errs1)"
  shows "grows errs errs1"
  using assms
proof (induction items arbitrary: index acc errs)
  case Nil
  then show ?case by simp
next
  case (Cons item rest)
  obtain r1 e1 where a: "adj (path @ ''.['' @ str_of_nat index @ '']'') item value errs = (r1, e1)"
    by (cases "adj (path @ ''.['' @ str_of_nat index @ '']'') item value errs")
  have g1: "grows errs e1" using Cons.prems(1) [of item _ "value" errs r1 e1] a by simp
  show ?case
  proof (cases r1)
    case (Inl e)
    then show ?thesis using Cons.prems(2) a g1 by simp
  next
    case (Inr v)
    then have l: "list_items_loop adj path value (Suc index) rest (acc @ [v]) e1 = (r, errs1)"
      using Cons.prems(2) a by simp
    have adj1: "grows e ea" if "w \<in> set rest" "adj q w s e = (ra, ea)" for q w s e ra ea
      using Cons.prems(1) [of w q s e ra ea] that by simp
    have "grows e1 errs1" using adj1 l by (rule Cons.IH)
    then show ?thesis using g1 by (blast intro: grows_trans)
  qed
qed

lemma tuple_items_loop_grows:
  assumes adj: "\<And>q w s e ra ea. w \<in> set items \<Longrightarrow> adj q w s e = (ra, ea) \<Longrightarrow> grows e ea"
    and "tuple_items_loop adj path vals index items acc errs = (r, errs1)"
  shows "grows errs errs1"
  using assms
proof (induction items arbitrary: index acc errs)
  case Nil
  then show ?case by simp
next
  case (Cons item rest)
  show ?case
  proof (cases "py_index vals index")
    case (Inl e)
    then show ?thesis using Cons.prems(2) by simp
  next
    case iv: (Inr vspec)
    obtain r1 e1 where a: "adj (path @ ''.('' @ str_of_nat index @ '')'') item vspec errs = (r1, e1)"
      by (cases "adj (path @ ''.('' @ str_of_nat index @ '')'') item vspec errs")
    have g1: "grows errs e1" using Cons.prems(1) [of item _ vspec errs r1 e1] a by simp
    show ?thesis
    proof (cases r1)
      case (Inl e)
      then show ?thesis using Cons.prems(2) a g1 iv by simp
    next
      case (Inr v)
      then have l: "tuple_items_loop adj path vals (Suc index) rest (acc @ [v]) e1 = (r, errs1)"
        using Cons.prems(2) a iv by simp
      have adj1: "grows e ea" if "w \<in> set rest" "adj q w s e = (ra, ea)" for q w s e ra ea
        using Cons.prems(1) [of w q s e ra ea] that by simp
      have "grows e1 errs1" using adj1 l by (rule Cons.IH)
      then show ?thesis using g1 by (blast intro: grows_trans)
    qed
  qed
qed

lemma map_items_loop_grows:
  assumes adj: "\<And>q k s e ra ea. has_key node k \<Longrightarrow> adj q (dget node k) s e = (ra, ea) \<Longrightarrow> grows e ea"
    and "map_items_loop adj path node fs acc errs = (r, errs1)"
  shows "grows errs errs1"
  using assms(2)
proof (induction fs arbitrary: acc errs)
  case Nil
  then show ?case by simp
next
  case (Cons f rest)
  obtain key fspec where f: "f = (key, fspec)" by (cases f)
  show ?case
  proof (cases "has_key node key")
    case False
    then have "map_items_loop adj path node rest acc errs = (r, errs1)"
      using Cons.prems f by simp
    then show ?thesis by (rule Cons.IH)
  next
    case True
    obtain r1 e1 where a: "adj (path @ ''.'' @ key) (dget node key) fspec errs = (r1, e1)"
      by (cases "adj (path @ ''.'' @ key) (dget node key) fspec errs")
    have g1: "grows errs e1" using adj [OF True a] .
    show ?thesis
    proof (cases r1)
      case (Inl e)
      then show ?thesis using Cons.prems a g1 f True by simp
    next
      case (Inr v)
      then have "map_items_loop adj path node rest (dset acc key v) e1 = (r, errs1)"
        using Cons.prems a f True by simp
      then have "grows e1 errs1" by (rule Cons.IH)
      then show ?thesis using g1 by (blast intro: grows_trans)
    qed
  qed
qed

lemma process_list_node_grows:
  assumes adj: "\<And>q w s e ra ea. size w < size node \<Longrightarrow> adj q w s e = (ra, ea) \<Longrightarrow> grows e ea"
    and p: "process_list_node adj path node specs errs = (r, errs1)"
  shows "grows errs errs1"
proof (cases node)
  case (PList items)
  have adj1: "grows e ea" if "w \<in> set items" "adj q w s e = (ra, ea)" for q w s e ra ea
    using adj [of w q s e ra ea] that size_list_elem [of w items] PList by simp
  show ?thesis
  proof (cases "dgetitem specs ''value''")
    case (Inl e)
    then show ?thesis using p by (simp add: process_list_node_def)
  next
    case (Inr vspec)
    show ?thesis
    proof (cases "length_checks ''list'' path (length items) (dget specs ''length'') errs")
      case (Raised e)
      then show ?thesis using p PList Inr by (simp add: process_list_node_def)
    next
      case (Failed e1)
      then show ?thesis using p PList Inr length_checks_grows [OF Failed]
        by (simp add: process_list_node_def)
    next
      case Passed
      obtain r1 e1 where l: "list_items_loop adj path vspec 0 items [] errs = (r1, e1)"
        by (cases "list_items_loop adj path vspec 0 items [] errs")
      have g: "grows errs e1" using adj1 l by (rule list_items_loop_grows)
      show ?thesis using p PList Inr Passed l g
        by (cases r1) (simp_all add: process_list_node_def)
    qed
  qed
qed (use p in \<open>auto simp: process_list_node_def split: sum.splits\<close>)

lemma process_tuple_node_grows:
  assumes adj: "\<And>q w s e ra ea. size w < size node \<Longrightarrow> adj q w s e = (ra, ea) \<Longrightarrow> grows e ea"
    and p: "process_tuple_node adj path node specs errs = (r, errs1)"
  shows "grows errs errs1"
proof (cases node)
  case (PList items)
  have adj1: "grows e ea" if "w \<in> set items" "adj q w s e = (ra, ea)" for q w s e ra ea
    using adj [of w q s e ra ea] that size_list_elem [of w items] PList by simp
  show ?thesis
  proof (cases "dgetitem specs ''values''")
    case (Inl e)
    then show ?thesis using p by (simp add: process_tuple_node_def)
  next
    case (Inr vals)
    show ?thesis
    proof (cases "py_len vals")
      case (Inl e)
      then show ?thesis using p PList Inr by (simp add: process_tuple_node_def)
    next
      case n: (Inr n)
      show ?thesis
      proof (cases "length items = n")
        case False
        then show ?thesis using p PList Inr n by (auto simp: process_tuple_node_def)
      next
        case True
        obtain r1 e1 where l: "tuple_items_loop adj path vals 0 items [] errs = (r1, e1)"
          by (cases "tuple_items_loop adj path vals 0 items [] errs")
        have g: "grows errs e1" using adj1 l by (rule tuple_items_loop_grows)
        show ?thesis using p PList Inr n True l g
          by (cases r1) (simp_all add: process_tuple_node_def)
      qed
    qed
  qed
qed (use p in \<open>auto simp: process_tuple_node_def split: sum.splits\<close>)

lemma process_map_node_grows:
  assumes adj: "\<And>q w s e ra ea. size w < size node \<Longrightarrow> adj q w s e = (ra, ea) \<Longrightarrow> grows e ea"
    and p: "process_map_node adj path node specs errs = (r, errs1)"
  shows "grows errs errs1"
proof (cases node)
  case (PDict d)
  have adj1: "grows e ea" if "has_key d k" "adj q (dget d k) s e = (ra, ea)" for q k s e ra ea
    using adj [of "dget d k" q s e ra ea] that size_has_key [of d k] PDict by simp
  show ?thesis
  proof (cases "dgetitem specs ''fields''")
    case (Inl e)
    then show ?thesis using p by (simp add: process_map_node_def)
  next
    case (Inr fspecs)
    show ?thesis
    proof (cases fspecs)
      case fs: (PDict fs)
      obtain r1 e1 where l: "map_items_loop adj path d fs [] errs = (r1, e1)"
        by (cases "map_items_loop adj path d fs [] errs")
      have g: "grows errs e1" using adj1 l by (rule map_items_loop_grows)
      show ?thesis using p PDict Inr fs l g
        by (cases r1) (simp_all add: process_map_node_def)
    qed (use p PDict Inr in \<open>simp_all add: process_map_node_def\<close>)
  qed
qed (use p in \<open>auto simp: process_map_node_def split: sum.splits\<close>)

lemma process_node_grows:
  assumes adj: "\<And>q w s e ra ea. size w < size node \<Longrightarrow> adj q w s e = (ra, ea) \<Longrightarrow> grows e ea"
    and p: "process_node adj re_match kind path node specs errs = (r, errs1)"
  shows "grows errs errs1"
proof -
  note l = process_list_node_grows [of node adj path specs errs r errs1, OF adj]
  note t = process_tuple_node_grows [of node adj path specs errs r errs1, OF adj]
  note m = process_map_node_grows [of node adj path specs errs r errs1, OF adj]
  show ?thesis
    using p l t m
    by (auto simp: process_node_def split: if_splits
        dest: process_flag_node_grows process_integer_node_grows process_decimal_node_grows
          process_string_node_grows process_enum_node_grows)
qed

lemma adjust_node_grows:
  "adjust_node re_match path node specs errs = (r, errs1) \<Longrightarrow> grows errs errs1"
proof (induction node arbitrary: path specs errs r errs1 rule: measure_induct_rule [of size])
  case (less node)
  have adj: "grows e ea" if "size w < size node" "adjust_node re_match q w s e = (ra, ea)"
    for q w s e ra ea
    using less.IH [OF that] .
  have pn: "grows errs errs1"
    if "process_node (adjust_node re_match) re_match kind path node d errs = (r, errs1)" for kind d
    using adj that by (rule process_node_grows)
  show ?case
  proof (cases specs)
    case (PDict d)
    show ?thesis
      using less.prems PDict
      by (subst (asm) adjust_node.simps)
         (auto simp: Let_def split: if_splits sum.splits dest: pn)
  qed (use less.prems in \<open>subst (asm) adjust_node.simps, simp\<close>)+
qed


lemma plain_schema_value: "plain_schema (PDict d) \<Longrightarrow> (k, v) \<in> set d \<Longrightarrow> plain_schema v"
  by (simp add: list_all_iff) force

lemma plain_schema_dgetitem:
  assumes "plain_schema (PDict d)" and "dgetitem d k = Inr v"
  shows "plain_schema v"
proof -
  have "(k, v) \<in> set d"
    using assms(2) by (auto simp: dgetitem_def split: option.splits dest!: map_of_SomeD)
  with assms(1) show ?thesis by (rule plain_schema_value)
qed

lemma integral_item: "integral (PList items) \<Longrightarrow> w \<in> set items \<Longrightarrow> integral w"
  by (auto simp: list_all_iff)

lemma integral_field: "integral (PDict dd) \<Longrightarrow> has_key dd k \<Longrightarrow> integral (dget dd k)"
  by (auto simp: list_all_iff has_key_def dget_def split: option.splits dest!: map_of_SomeD)

lemma py_lt_number_right:
  assumes "is_number a" and "num_of a = Some y"
  shows "py_lt x a = (case num_of x of Some v \<Rightarrow> Inr (float_lt v y) | None \<Rightarrow> Inl TypeError)"
    and "py_le x a = (case num_of x of Some v \<Rightarrow> Inr (float_le v y) | None \<Rightarrow> Inl TypeError)"
proof -
  consider i where "a = PInt i" | f where "a = PFloat f"
    using assms(1) by (cases a) auto
  then show "py_lt x a = (case num_of x of Some v \<Rightarrow> Inr (float_lt v y) | None \<Rightarrow> Inl TypeError)"
    using assms(2) by cases (cases x; simp add: py_lt_unfold)+
  consider i where "a = PInt i" | f where "a = PFloat f"
    using assms(1) by (cases a) auto
  then show "py_le x a = (case num_of x of Some v \<Rightarrow> Inr (float_le v y) | None \<Rightarrow> Inl TypeError)"
    using assms(2) by cases (cases x; simp add: py_le_unfold)+
qed

lemma py_lt_number_left:
  assumes "is_number a" and "num_of a = Some y"
  shows "py_lt a x = (case num_of x of Some v \<Rightarrow> Inr (float_lt y v) | None \<Rightarrow> Inl TypeError)"
    and "py_le a x = (case num_of x of Some v \<Rightarrow> Inr (float_le y v) | None \<Rightarrow> Inl TypeError)"
proof -
  consider i where "a = PInt i" | f where "a = PFloat f"
    using assms(1) by (cases a) auto
  then show "py_lt a x = (case num_of x of Some v \<Rightarrow> Inr (float_lt y v) | None \<Rightarrow> Inl TypeError)"
    using assms(2) by cases (cases x; simp add: py_lt_unfold)+
  consider i where "a = PInt i" | f where "a = PFloat f"
    using assms(1) by (cases a) auto
  then show "py_le a x = (case num_of x of Some v \<Rightarrow> Inr (float_le y v) | None \<Rightarrow> Inl TypeError)"
    using assms(2) by cases (cases x; simp add: py_le_unfold)+
qed

lemma py_lt_same_number:
  assumes "is_number a" "is_number b" "num_of a = num_of b"
  shows "py_lt x a = py_lt x b" "py_lt a x = py_lt b x" "py_le x a = py_le x b" "py_le a x = py_le b x"
proof -
  obtain y where a: "num_of a = Some y"
    using assms(1) by (cases a) auto
  then have b: "num_of b = Some y" using assms(3) by simp
  show "py_lt x a = py_lt x b"
    by (simp only: py_lt_number_right(1) [OF assms(1) a] py_lt_number_right(1) [OF assms(2) b])
  show "py_le x a = py_le x b"
    by (simp only: py_lt_number_right(2) [OF assms(1) a] py_lt_number_right(2) [OF assms(2) b])
  show "py_lt a x = py_lt b x"
    by (simp only: py_lt_number_left(1) [OF assms(1) a] py_lt_number_left(1) [OF assms(2) b])
  show "py_le a x = py_le b x"
    by (simp only: py_lt_number_left(2) [OF assms(1) a] py_lt_number_left(2) [OF assms(2) b])
qed

lemma process_integer_node_same_number:
  assumes "is_number a" "is_number b" "num_of a = num_of b" "py_int a = py_int b"
  shows "process_integer_node path a d errs = process_integer_node path b d errs"
proof -
  note c = py_lt_same_number [OF assms(1,2,3)]
  have m: "integer_maximum_part path a mx errs = integer_maximum_part path b mx errs" for mx
    by (simp only: integer_maximum_part_def c assms(4))
  have n: "is_number a = is_number b" using assms(1,2) by simp
  show ?thesis
    by (simp only: process_integer_node_def n py_gt_def py_ge_def c m Let_def)
qed

lemma reencode_eq_PNone [simp]: "(reencode v = PNone) = (v = PNone)"
  by (cases v) simp_all

lemma plain_schema_py_index: "plain_schema vals \<Longrightarrow> py_index vals i = Inr s \<Longrightarrow> plain_schema s"
  by (cases vals) (auto simp: py_index_def list_all_length split: if_splits)

lemma process_flag_node_idem:
  "process_flag_node path node d errs = (Inr v, errs) \<Longrightarrow> v = node \<and> v \<noteq> PNone \<and> reencode v = v"
  by (cases node) (auto simp: process_flag_node_def)

lemma process_string_node_idem:
  "process_string_node re_match path node d errs = (Inr v, errs)
   \<Longrightarrow> v = node \<and> v \<noteq> PNone \<and> reencode v = v"
  by (cases node)
     (auto simp: process_string_node_def Let_def length_checks_def
        split: check.splits sum.splits if_splits pyval.splits)

lemma process_enum_node_idem:
  "process_enum_node path node d errs = (Inr v, errs) \<Longrightarrow> v = node \<and> v \<noteq> PNone \<and> reencode v = v"
  by (cases node) (auto simp: process_enum_node_def split: sum.splits if_splits)

lemma process_integer_node_idem:
  assumes "process_integer_node path node d errs = (Inr v, errs)" and "integral node"
  shows "process_integer_node path (reencode v) d errs = (Inr v, errs) \<and> v \<noteq> PNone"
proof -
  have num: "is_number node"
    using assms(1) by (cases "is_number node") (auto simp: process_integer_node_def)
  have pi: "py_int node = Inr v" using assms(1) by (rule process_integer_node_ok)
  have "\<exists>n. v = PInt n \<and> num_of v = num_of node"
  proof (cases node)
    case (PInt n)
    then show ?thesis using pi by auto
  next
    case (PFloat f)
    then obtain r where f: "f = Finite r" and r: "r = of_int \<lfloor>r\<rfloor>"
      using assms(2) by (cases f) auto
    have "trunc r = \<lfloor>r\<rfloor>"
    proof (cases "0 \<le> r")
      case True
      then show ?thesis by (simp add: trunc_def)
    next
      case False
      have "\<lceil>r\<rceil> = \<lfloor>r\<rfloor>" by (subst r, subst (2) r) simp
      then show ?thesis using False by (simp add: trunc_def)
    qed
    then have "v = PInt \<lfloor>r\<rfloor>" using pi PFloat f by simp
    then show ?thesis using PFloat f r by simp
  qed (use num in auto)
  then obtain n where v: "v = PInt n" "num_of v = num_of node" by blast
  have "process_integer_node path v d errs = process_integer_node path node d errs"
    using num v pi by (intro process_integer_node_same_number) auto
  then show ?thesis using assms(1) v by simp
qed


lemma length_checks_failed: "length_checks what path n len errs = Failed errs1 \<Longrightarrow> errs1 \<noteq> errs"
  by (auto simp: length_checks_def Let_def split: pyval.splits sum.splits if_splits)

lemma list_items_loop_idem:
  assumes ih: "\<And>w q e u. w \<in> set items \<Longrightarrow> adjust_node re q w vspec e = (Inr u, e)
                 \<Longrightarrow> adjust_node re q (reencode u) vspec e = (Inr u, e)"
    and "list_items_loop (adjust_node re) path vspec index items acc errs = (Inr out, errs)"
  shows "\<exists>vs. out = acc @ vs \<and> length vs = length items
           \<and> (\<forall>acc2. list_items_loop (adjust_node re) path vspec index (map reencode vs) acc2 errs
                        = (Inr (acc2 @ vs), errs))"
  using assms
proof (induction items arbitrary: index acc)
  case Nil
  then show ?case by simp
next
  case (Cons item rest)
  let ?q = "path @ ''.['' @ str_of_nat index @ '']''"
  obtain r1 e1 where a: "adjust_node re ?q item vspec errs = (r1, e1)"
    by (cases "adjust_node re ?q item vspec errs")
  have g1: "grows errs e1" using a by (rule adjust_node_grows)
  show ?case
  proof (cases r1)
    case (Inl e)
    then show ?thesis using Cons.prems(2) a by simp
  next
    case (Inr u)
    then have l: "list_items_loop (adjust_node re) path vspec (Suc index) rest (acc @ [u]) e1 = (Inr out, errs)"
      using Cons.prems(2) a by simp
    have "grows e1 errs"
      using l by (rule list_items_loop_grows [rotated]) (rule adjust_node_grows)
    with g1 have e1: "e1 = errs" by (rule grows_antisym)
    have u: "adjust_node re ?q (reencode u) vspec errs = (Inr u, errs)"
      using Cons.prems(1) [of item ?q errs u] a Inr e1 by simp
    have ih1: "adjust_node re q (reencode ua) vspec e = (Inr ua, e)"
      if "w \<in> set rest" "adjust_node re q w vspec e = (Inr ua, e)" for w q e ua
      using Cons.prems(1) [of w q e ua] that by simp
    have l1: "list_items_loop (adjust_node re) path vspec (Suc index) rest (acc @ [u]) errs = (Inr out, errs)"
      using l e1 by simp
    have "\<exists>vs. out = (acc @ [u]) @ vs \<and> length vs = length rest
           \<and> (\<forall>acc2. list_items_loop (adjust_node re) path vspec (Suc index) (map reencode vs) acc2 errs
                        = (Inr (acc2 @ vs), errs))"
    proof (rule Cons.IH)
      show "adjust_node re q (reencode ua) vspec e = (Inr ua, e)"
        if "w \<in> set rest" "adjust_node re q w vspec e = (Inr ua, e)" for w q e ua
        using that by (rule ih1)
      show "list_items_loop (adjust_node re) path vspec (Suc index) rest (acc @ [u]) errs = (Inr out, errs)"
        by (rule l1)
    qed
    then obtain vs where vs: "out = (acc @ [u]) @ vs" "length vs = length rest"
      "\<forall>acc2. list_items_loop (adjust_node re) path vspec (Suc index) (map reencode vs) acc2 errs
                        = (Inr (acc2 @ vs), errs)"
      by blast
    have "out = acc @ (u # vs)" using vs(1) by simp
    moreover have "length (u # vs) = length (item # rest)" using vs(2) by simp
    moreover have "\<forall>acc2. list_items_loop (adjust_node re) path vspec index (map reencode (u # vs)) acc2 errs
                        = (Inr (acc2 @ (u # vs)), errs)"
      using u vs(3) by simp
    ultimately show ?thesis by blast
  qed
qed

lemma tuple_items_loop_idem:
  assumes ih: "\<And>w q s e u. w \<in> set items \<Longrightarrow> plain_schema s \<Longrightarrow> adjust_node re q w s e = (Inr u, e)
                 \<Longrightarrow> adjust_node re q (reencode u) s e = (Inr u, e)"
    and "tuple_items_loop (adjust_node re) path vals index items acc errs = (Inr out, errs)"
    and pv: "plain_schema vals"
  shows "\<exists>vs. out = acc @ vs \<and> length vs = length items
           \<and> (\<forall>acc2. tuple_items_loop (adjust_node re) path vals index (map reencode vs) acc2 errs
                        = (Inr (acc2 @ vs), errs))"
  using assms(1,2)
proof (induction items arbitrary: index acc)
  case Nil
  then show ?case by simp
next
  case (Cons item rest)
  let ?q = "path @ ''.('' @ str_of_nat index @ '')''"
  show ?case
  proof (cases "py_index vals index")
    case (Inl e)
    then show ?thesis using Cons.prems(2) by simp
  next
    case iv: (Inr s)
    have ps: "plain_schema s" using pv iv by (rule plain_schema_py_index)
    obtain r1 e1 where a: "adjust_node re ?q item s errs = (r1, e1)"
      by (cases "adjust_node re ?q item s errs")
    have g1: "grows errs e1" using a by (rule adjust_node_grows)
    show ?thesis
    proof (cases r1)
      case (Inl e)
      then show ?thesis using Cons.prems(2) a iv by simp
    next
      case (Inr u)
      then have l: "tuple_items_loop (adjust_node re) path vals (Suc index) rest (acc @ [u]) e1 = (Inr out, errs)"
        using Cons.prems(2) a iv by simp
      have "grows e1 errs"
        using l by (rule tuple_items_loop_grows [rotated]) (rule adjust_node_grows)
      with g1 have e1: "e1 = errs" by (rule grows_antisym)
      have u: "adjust_node re ?q (reencode u) s errs = (Inr u, errs)"
        using Cons.prems(1) [of item s ?q errs u] ps a Inr e1 by simp
      have ih1: "adjust_node re q (reencode ua) s1 e = (Inr ua, e)"
        if "w \<in> set rest" "plain_schema s1" "adjust_node re q w s1 e = (Inr ua, e)" for w q s1 e ua
        using Cons.prems(1) [of w s1 q e ua] that by simp
      have l1: "tuple_items_loop (adjust_node re) path vals (Suc index) rest (acc @ [u]) errs = (Inr out, errs)"
        using l e1 by simp
      have "\<exists>vs. out = (acc @ [u]) @ vs \<and> length vs = length rest
           \<and> (\<forall>acc2. tuple_items_loop (adjust_node re) path vals (Suc index) (map reencode vs) acc2 errs
                        = (Inr (acc2 @ vs), errs))"
      proof (rule Cons.IH)
        show "adjust_node re q (reencode ua) s1 e = (Inr ua, e)"
          if "w \<in> set rest" "plain_schema s1" "adjust_node re q w s1 e = (Inr ua, e)" for w q s1 e ua
          using that by (rule ih1)
        show "tuple_items_loop (adjust_node re) path vals (Suc index) rest (acc @ [u]) errs = (Inr out, errs)"
          by (rule l1)
      qed
      then obtain vs where vs: "out = (acc @ [u]) @ vs" "length vs = length rest"
        "\<forall>acc2. tuple_items_loop (adjust_node re) path vals (Suc index) (map reencode vs) acc2 errs
                        = (Inr (acc2 @ vs), errs)"
        by blast
      have "out = acc @ (u # vs)" using vs(1) by simp
      moreover have "length (u # vs) = length (item # rest)" using vs(2) by simp
      moreover have "\<forall>acc2. tuple_items_loop (adjust_node re) path vals index (map reencode (u # vs)) acc2 errs
                        = (Inr (acc2 @ (u # vs)), errs)"
        using u vs(3) iv by simp
      ultimately show ?thesis by blast
    qed
  qed
qed

lemma map_items_loop_idem:
  assumes ih: "\<And>k q fspec e u. has_key dd k \<Longrightarrow> (k, fspec) \<in> set fs
                 \<Longrightarrow> adjust_node re q (dget dd k) fspec e = (Inr u, e)
                 \<Longrightarrow> adjust_node re q (reencode u) fspec e = (Inr u, e)"
    and "map_items_loop (adjust_node re) path dd fs acc errs = (Inr kvs, errs)"
    and "distinct (map fst fs)" and "fst ` set fs \<inter> fst ` set acc = {}"
  shows "\<exists>E. kvs = acc @ E \<and> fst ` set E \<subseteq> fst ` set fs
           \<and> (\<forall>doc acc2. (\<forall>k \<in> fst ` set fs. map_of doc k = map_option reencode (map_of E k))
                  \<longrightarrow> fst ` set fs \<inter> fst ` set acc2 = {}
                  \<longrightarrow> map_items_loop (adjust_node re) path doc fs acc2 errs
                      = (Inr (acc2 @ E), errs))"
  using assms
proof (induction fs arbitrary: acc)
  case Nil
  then show ?case by simp
next
  case (Cons f rest)
  obtain key fspec where f: "f = (key, fspec)" by (cases f)
  have d1: "distinct (map fst rest)" and kr: "key \<notin> fst ` set rest"
    using Cons.prems(3) f by auto
  have ih1: "adjust_node re q (reencode u) fs1 e = (Inr u, e)"
    if "has_key dd k" "(k, fs1) \<in> set rest" "adjust_node re q (dget dd k) fs1 e = (Inr u, e)"
    for k q fs1 e u
    using Cons.prems(1) [of k fs1 q e u] that by simp
  show ?case
  proof (cases "has_key dd key")
    case False
    then have l: "map_items_loop (adjust_node re) path dd rest acc errs = (Inr kvs, errs)"
      using Cons.prems(2) f by simp
    have dj: "fst ` set rest \<inter> fst ` set acc = {}" using Cons.prems(4) by auto
    have "\<exists>E. kvs = acc @ E \<and> fst ` set E \<subseteq> fst ` set rest
           \<and> (\<forall>doc acc2. (\<forall>k \<in> fst ` set rest. map_of doc k = map_option reencode (map_of E k))
                  \<longrightarrow> fst ` set rest \<inter> fst ` set acc2 = {}
                  \<longrightarrow> map_items_loop (adjust_node re) path doc rest acc2 errs
                      = (Inr (acc2 @ E), errs))"
    proof (rule Cons.IH)
      show "adjust_node re q (reencode u) fs1 e = (Inr u, e)"
        if "has_key dd k" "(k, fs1) \<in> set rest" "adjust_node re q (dget dd k) fs1 e = (Inr u, e)"
        for k q fs1 e u
        using that by (rule ih1)
    qed (rule l, rule d1, rule dj)
    then obtain E where E: "kvs = acc @ E" "fst ` set E \<subseteq> fst ` set rest"
      "\<forall>doc acc2. (\<forall>k \<in> fst ` set rest. map_of doc k = map_option reencode (map_of E k))
                  \<longrightarrow> fst ` set rest \<inter> fst ` set acc2 = {}
                  \<longrightarrow> map_items_loop (adjust_node re) path doc rest acc2 errs
                      = (Inr (acc2 @ E), errs)"
      by blast
    have nk: "map_of E key = None" using E(2) kr by (auto simp: map_of_eq_None_iff)
    have "map_items_loop (adjust_node re) path doc (f # rest) acc2 errs = (Inr (acc2 @ E), errs)"
      if a: "\<forall>k \<in> fst ` set (f # rest). map_of doc k = map_option reencode (map_of E k)"
        and b: "fst ` set (f # rest) \<inter> fst ` set acc2 = {}" for doc acc2
    proof -
      have "\<not> has_key doc key" using a f nk by (simp add: has_key_def)
      moreover have "\<forall>k \<in> fst ` set rest. map_of doc k = map_option reencode (map_of E k)"
        using a by simp
      moreover have "fst ` set rest \<inter> fst ` set acc2 = {}" using b by auto
      ultimately show ?thesis using E(3) f by simp
    qed
    then show ?thesis using E(1,2) by (intro exI [of _ E]) auto
  next
    case True
    let ?q = "path @ ''.'' @ key"
    obtain r1 e1 where a: "adjust_node re ?q (dget dd key) fspec errs = (r1, e1)"
      by (cases "adjust_node re ?q (dget dd key) fspec errs")
    have g1: "grows errs e1" using a by (rule adjust_node_grows)
    show ?thesis
    proof (cases r1)
      case (Inl e)
      then show ?thesis using Cons.prems(2) a f True by simp
    next
      case (Inr u)
      then have l: "map_items_loop (adjust_node re) path dd rest (dset acc key u) e1 = (Inr kvs, errs)"
        using Cons.prems(2) a f True by simp
      have "grows e1 errs"
        using l by (rule map_items_loop_grows [rotated]) (rule adjust_node_grows)
      with g1 have e1: "e1 = errs" by (rule grows_antisym)
      have nk: "\<not> has_key acc key" using Cons.prems(4) f by (auto simp: has_key_iff)
      have ds: "dset acc key u = acc @ [(key, u)]" using nk by (simp add: dset_def)
      have dj: "fst ` set rest \<inter> fst ` set (acc @ [(key, u)]) = {}"
        using Cons.prems(4) kr by auto
      have u: "adjust_node re ?q (reencode u) fspec errs = (Inr u, errs)"
        using Cons.prems(1) [of key fspec ?q errs u] True a Inr e1 f by simp
      have l1: "map_items_loop (adjust_node re) path dd rest (acc @ [(key, u)]) errs = (Inr kvs, errs)"
        using l e1 ds by simp
      have "\<exists>E. kvs = (acc @ [(key, u)]) @ E \<and> fst ` set E \<subseteq> fst ` set rest
           \<and> (\<forall>doc acc2. (\<forall>k \<in> fst ` set rest. map_of doc k = map_option reencode (map_of E k))
                  \<longrightarrow> fst ` set rest \<inter> fst ` set acc2 = {}
                  \<longrightarrow> map_items_loop (adjust_node re) path doc rest acc2 errs
                      = (Inr (acc2 @ E), errs))"
      proof (rule Cons.IH)
        show "adjust_node re q (reencode ua) fs1 e = (Inr ua, e)"
          if "has_key dd k" "(k, fs1) \<in> set rest" "adjust_node re q (dget dd k) fs1 e = (Inr ua, e)"
          for k q fs1 e ua
          using that by (rule ih1)
      qed (rule l1, rule d1, rule dj)
      then obtain E where E: "kvs = (acc @ [(key, u)]) @ E" "fst ` set E \<subseteq> fst ` set rest"
        "\<forall>doc acc2. (\<forall>k \<in> fst ` set rest. map_of doc k = map_option reencode (map_of E k))
                  \<longrightarrow> fst ` set rest \<inter> fst ` set acc2 = {}
                  \<longrightarrow> map_items_loop (adjust_node re) path doc rest acc2 errs
                      = (Inr (acc2 @ E), errs)"
        by blast
      have "map_items_loop (adjust_node re) path doc (f # rest) acc2 errs
              = (Inr (acc2 @ (key, u) # E), errs)"
        if a: "\<forall>k \<in> fst ` set (f # rest). map_of doc k = map_option reencode (map_of ((key, u) # E) k)"
          and b: "fst ` set (f # rest) \<inter> fst ` set acc2 = {}" for doc acc2
      proof -
        have mk: "map_of doc key = Some (reencode u)" using a f by simp
        then have hk: "has_key doc key" and dg: "dget doc key = reencode u"
          by (simp_all add: has_key_def dget_def)
        have nk2: "\<not> has_key acc2 key" using b f by (auto simp: has_key_iff)
        have ds2: "dset acc2 key u = acc2 @ [(key, u)]" using nk2 by (simp add: dset_def)
        have r1: "\<forall>k \<in> fst ` set rest. map_of doc k = map_option reencode (map_of E k)"
          using a kr by auto
        have r2: "fst ` set rest \<inter> fst ` set (acc2 @ [(key, u)]) = {}"
          using b kr by auto
        have "map_items_loop (adjust_node re) path doc rest (acc2 @ [(key, u)]) errs
              = (Inr ((acc2 @ [(key, u)]) @ E), errs)"
          using E(3) r1 r2 by blast
        then show ?thesis using f hk dg u ds2 by simp
      qed
      moreover have "kvs = acc @ (key, u) # E" using E(1) by simp
      moreover have "fst ` set ((key, u) # E) \<subseteq> fst ` set (f # rest)" using E(2) f by auto
      ultimately show ?thesis by (intro exI [of _ "(key, u) # E"]) blast
    qed
  qed
qed



lemma process_list_node_idem:
  assumes ih: "\<And>w q s e u. size w < size node \<Longrightarrow> plain_schema s \<Longrightarrow> integral w
                 \<Longrightarrow> adjust_node re q w s e = (Inr u, e)
                 \<Longrightarrow> adjust_node re q (reencode u) s e = (Inr u, e)"
    and pl: "plain_schema (PDict d)" and it: "integral node"
    and p: "process_list_node (adjust_node re) path node d errs = (Inr v, errs)"
  shows "process_list_node (adjust_node re) path (reencode v) d errs = (Inr v, errs) \<and> v \<noteq> PNone"
proof (cases "dgetitem d ''value''")
  case (Inl e)
  then show ?thesis using p by (simp add: process_list_node_def)
next
  case (Inr vspec)
  have pv: "plain_schema vspec" using pl Inr by (rule plain_schema_dgetitem)
  show ?thesis
  proof (cases node)
    case (PList items)
    show ?thesis
    proof (cases "length_checks ''list'' path (length items) (dget d ''length'') errs")
      case (Raised e)
      then show ?thesis using p PList Inr by (simp add: process_list_node_def)
    next
      case (Failed e1)
      then show ?thesis using p PList Inr length_checks_failed [OF Failed]
        by (simp add: process_list_node_def)
    next
      case Passed
      obtain r1 e1 where l: "list_items_loop (adjust_node re) path vspec 0 items [] errs = (r1, e1)"
        by (cases "list_items_loop (adjust_node re) path vspec 0 items [] errs")
      show ?thesis
      proof (cases r1)
        case (Inl e)
        then show ?thesis using p PList Inr Passed l by (simp add: process_list_node_def)
      next
        case out: (Inr out)
        then have v: "v = PList out" and e1: "e1 = errs"
          using p PList Inr Passed l by (simp_all add: process_list_node_def)
        have ih1: "adjust_node re q (reencode u) vspec e = (Inr u, e)"
          if "w \<in> set items" "adjust_node re q w vspec e = (Inr u, e)" for w q e u
          using ih [of w vspec q e u] that pv size_list_elem [of w items]
            integral_item [of items w] it PList by simp
        have l1: "list_items_loop (adjust_node re) path vspec 0 items [] errs = (Inr out, errs)"
          using l out e1 by simp
        have "\<exists>vs. out = [] @ vs \<and> length vs = length items
           \<and> (\<forall>acc2. list_items_loop (adjust_node re) path vspec 0 (map reencode vs) acc2 errs
                        = (Inr (acc2 @ vs), errs))"
        proof (rule list_items_loop_idem)
          show "adjust_node re q (reencode u) vspec e = (Inr u, e)"
            if "w \<in> set items" "adjust_node re q w vspec e = (Inr u, e)" for w q e u
            using that by (rule ih1)
        qed (rule l1)
        then obtain vs where vs: "out = [] @ vs" "length vs = length items"
          "\<forall>acc2. list_items_loop (adjust_node re) path vspec 0 (map reencode vs) acc2 errs
                   = (Inr (acc2 @ vs), errs)"
          by blast
        have "list_items_loop (adjust_node re) path vspec 0 (map reencode out) [] errs = (Inr out, errs)"
          using vs(1,3) by simp
        moreover have "length out = length items" using vs(1,2) by simp
        ultimately show ?thesis using v Inr Passed
          by (simp add: process_list_node_def)
      qed
    qed
  qed (use p Inr in \<open>simp_all add: process_list_node_def\<close>)
qed

lemma process_tuple_node_idem:
  assumes ih: "\<And>w q s e u. size w < size node \<Longrightarrow> plain_schema s \<Longrightarrow> integral w
                 \<Longrightarrow> adjust_node re q w s e = (Inr u, e)
                 \<Longrightarrow> adjust_node re q (reencode u) s e = (Inr u, e)"
    and pl: "plain_schema (PDict d)" and it: "integral node"
    and p: "process_tuple_node (adjust_node re) path node d errs = (Inr v, errs)"
  shows "process_tuple_node (adjust_node re) path (reencode v) d errs = (Inr v, errs) \<and> v \<noteq> PNone"
proof (cases "dgetitem d ''values''")
  case (Inl e)
  then show ?thesis using p by (simp add: process_tuple_node_def)
next
  case (Inr vals)
  have pv: "plain_schema vals" using pl Inr by (rule plain_schema_dgetitem)
  show ?thesis
  proof (cases node)
    case (PList items)
    show ?thesis
    proof (cases "py_len vals")
      case (Inl e)
      then show ?thesis using p PList Inr by (simp add: process_tuple_node_def)
    next
      case n: (Inr n)
      show ?thesis
      proof (cases "length items = n")
        case False
        then show ?thesis using p PList Inr n by (simp add: process_tuple_node_def)
      next
        case True
        obtain r1 e1 where l: "tuple_items_loop (adjust_node re) path vals 0 items [] errs = (r1, e1)"
          by (cases "tuple_items_loop (adjust_node re) path vals 0 items [] errs")
        show ?thesis
        proof (cases r1)
          case (Inl e)
          then show ?thesis using p PList Inr n True l by (simp add: process_tuple_node_def)
        next
          case out: (Inr out)
          then have v: "v = PTuple out" and e1: "e1 = errs"
            using p PList Inr n True l by (simp_all add: process_tuple_node_def)
          have ih1: "adjust_node re q (reencode u) s e = (Inr u, e)"
            if "w \<in> set items" "plain_schema s" "adjust_node re q w s e = (Inr u, e)" for w q s e u
            using ih [of w s q e u] that size_list_elem [of w items]
              integral_item [of items w] it PList by simp
          have l1: "tuple_items_loop (adjust_node re) path vals 0 items [] errs = (Inr out, errs)"
            using l out e1 by simp
          have "\<exists>vs. out = [] @ vs \<and> length vs = length items
             \<and> (\<forall>acc2. tuple_items_loop (adjust_node re) path vals 0 (map reencode vs) acc2 errs
                          = (Inr (acc2 @ vs), errs))"
          proof (rule tuple_items_loop_idem)
            show "adjust_node re q (reencode u) s e = (Inr u, e)"
              if "w \<in> set items" "plain_schema s" "adjust_node re q w s e = (Inr u, e)" for w q s e u
              using that by (rule ih1)
          qed (rule l1, rule pv)
          then obtain vs where vs: "out = [] @ vs" "length vs = length items"
            "\<forall>acc2. tuple_items_loop (adjust_node re) path vals 0 (map reencode vs) acc2 errs
                     = (Inr (acc2 @ vs), errs)"
            by blast
          have "tuple_items_loop (adjust_node re) path vals 0 (map reencode out) [] errs = (Inr out, errs)"
            using vs(1,3) by simp
          moreover have "length out = n" using vs(1,2) True by simp
          ultimately show ?thesis using v Inr n
            by (simp add: process_tuple_node_def)
        qed
      qed
    qed
  qed (use p Inr in \<open>simp_all add: process_tuple_node_def\<close>)
qed

lemma process_map_node_idem:
  assumes ih: "\<And>w q s e u. size w < size node \<Longrightarrow> plain_schema s \<Longrightarrow> integral w
                 \<Longrightarrow> adjust_node re q w s e = (Inr u, e)
                 \<Longrightarrow> adjust_node re q (reencode u) s e = (Inr u, e)"
    and pl: "plain_schema (PDict d)" and it: "integral node"
    and p: "process_map_node (adjust_node re) path node d errs = (Inr v, errs)"
  shows "process_map_node (adjust_node re) path (reencode v) d errs = (Inr v, errs) \<and> v \<noteq> PNone"
proof (cases "dgetitem d ''fields''")
  case (Inl e)
  then show ?thesis using p by (simp add: process_map_node_def)
next
  case (Inr fspecs)
  have pf: "plain_schema fspecs" using pl Inr by (rule plain_schema_dgetitem)
  show ?thesis
  proof (cases node)
    case dd: (PDict dd)
    show ?thesis
    proof (cases fspecs)
      case fs: (PDict fs)
      have dist: "distinct (map fst fs)" using pf fs by simp
      obtain r1 e1 where l: "map_items_loop (adjust_node re) path dd fs [] errs = (r1, e1)"
        by (cases "map_items_loop (adjust_node re) path dd fs [] errs")
      show ?thesis
      proof (cases r1)
        case (Inl e)
        then show ?thesis using p dd Inr fs l by (simp add: process_map_node_def)
      next
        case kvs: (Inr kvs)
        then have v: "v = PDict kvs" and e1: "e1 = errs"
          using p dd Inr fs l by (simp_all add: process_map_node_def)
        have ih1: "adjust_node re q (reencode u) fspec e = (Inr u, e)"
          if "has_key dd k" "(k, fspec) \<in> set fs" "adjust_node re q (dget dd k) fspec e = (Inr u, e)"
          for k q fspec e u
        proof -
          have "size (dget dd k) < size node" using that(1) dd size_has_key by simp
          moreover have "plain_schema fspec"
            using pf that(2) unfolding fs by (rule plain_schema_value)
          moreover have "integral (dget dd k)" using it dd that(1) by (auto intro: integral_field)
          ultimately show ?thesis using that(3) by (rule ih)
        qed
        have l1: "map_items_loop (adjust_node re) path dd fs [] errs = (Inr kvs, errs)"
          using l kvs e1 by simp
        have dj: "fst ` set fs \<inter> fst ` set ([] :: pydict) = {}" by simp
        have "\<exists>E. kvs = [] @ E \<and> fst ` set E \<subseteq> fst ` set fs
           \<and> (\<forall>doc acc2. (\<forall>k \<in> fst ` set fs. map_of doc k = map_option reencode (map_of E k))
                  \<longrightarrow> fst ` set fs \<inter> fst ` set acc2 = {}
                  \<longrightarrow> map_items_loop (adjust_node re) path doc fs acc2 errs
                      = (Inr (acc2 @ E), errs))"
        proof (rule map_items_loop_idem)
          show "adjust_node re q (reencode u) fspec e = (Inr u, e)"
            if "has_key dd k" "(k, fspec) \<in> set fs" "adjust_node re q (dget dd k) fspec e = (Inr u, e)"
            for k q fspec e u
            using that by (rule ih1)
        qed (rule l1, rule dist, rule dj)
        then obtain E where E: "kvs = [] @ E"
          "\<forall>doc acc2. (\<forall>k \<in> fst ` set fs. map_of doc k = map_option reencode (map_of E k))
                  \<longrightarrow> fst ` set fs \<inter> fst ` set acc2 = {}
                  \<longrightarrow> map_items_loop (adjust_node re) path doc fs acc2 errs
                      = (Inr (acc2 @ E), errs)"
          by blast
        let ?doc = "map (\<lambda>(k, x). (k, reencode x)) kvs"
        have "map_items_loop (adjust_node re) path ?doc fs [] errs = (Inr ([] @ E), errs)"
          using E(1) E(2) [rule_format, of ?doc "[]"] by (simp add: map_of_map)
        then have "map_items_loop (adjust_node re) path ?doc fs [] errs = (Inr kvs, errs)"
          using E(1) by simp
        then show ?thesis using v Inr fs by (simp add: process_map_node_def)
      qed
    qed (use p dd Inr in \<open>simp_all add: process_map_node_def\<close>)
  qed (use p Inr in \<open>simp_all add: process_map_node_def\<close>)
qed


lemma process_node_idem:
  assumes ih: "\<And>w q s e u. size w < size node \<Longrightarrow> plain_schema s \<Longrightarrow> integral w
                 \<Longrightarrow> adjust_node re q w s e = (Inr u, e)
                 \<Longrightarrow> adjust_node re q (reencode u) s e = (Inr u, e)"
    and pl: "plain_schema (PDict d)" and it: "integral node"
    and nd: "kind \<noteq> PStr ''decimal''"
    and p: "process_node (adjust_node re) re kind path node d errs = (Inr v, errs)"
  shows "process_node (adjust_node re) re kind path (reencode v) d errs = (Inr v, errs) \<and> v \<noteq> PNone"
proof -
  have h: "hashable kind" using p by (cases "hashable kind") (simp_all add: process_node_def)
  consider "kind = PStr ''flag''" | "kind = PStr ''integer''" | "kind = PStr ''string''"
    | "kind = PStr ''enum''" | "kind = PStr ''list''" | "kind = PStr ''tuple''" | "kind = PStr ''map''"
    | "kind \<notin> {PStr ''flag'', PStr ''integer'', PStr ''decimal'', PStr ''string'', PStr ''enum'',
                 PStr ''list'', PStr ''tuple'', PStr ''map''}"
    using nd by auto
  then show ?thesis
  proof cases
    case 1
    then have "process_flag_node path node d errs = (Inr v, errs)"
      using p h by (simp add: process_node_def)
    then have "v = node \<and> v \<noteq> PNone \<and> reencode v = v" by (rule process_flag_node_idem)
    then show ?thesis using p by auto
  next
    case 2
    then have "process_integer_node path node d errs = (Inr v, errs)"
      using p h by (simp add: process_node_def)
    then have "process_integer_node path (reencode v) d errs = (Inr v, errs) \<and> v \<noteq> PNone"
      using it by (rule process_integer_node_idem)
    then show ?thesis using 2 h by (simp add: process_node_def)
  next
    case 3
    then have "process_string_node re path node d errs = (Inr v, errs)"
      using p h by (simp add: process_node_def)
    then have "v = node \<and> v \<noteq> PNone \<and> reencode v = v" by (rule process_string_node_idem)
    then show ?thesis using p by auto
  next
    case 4
    then have "process_enum_node path node d errs = (Inr v, errs)"
      using p h by (simp add: process_node_def)
    then have "v = node \<and> v \<noteq> PNone \<and> reencode v = v" by (rule process_enum_node_idem)
    then show ?thesis using p by auto
  next
    case 5
    then have q: "process_list_node (adjust_node re) path node d errs = (Inr v, errs)"
      using p h by (simp add: process_node_def)
    have "process_list_node (adjust_node re) path (reencode v) d errs = (Inr v, errs) \<and> v \<noteq> PNone"
    proof (rule process_list_node_idem)
      show "adjust_node re q (reencode u) s e = (Inr u, e)"
        if "size w < size node" "plain_schema s" "integral w" "adjust_node re q w s e = (Inr u, e)"
        for w q s e u
        using that by (rule ih)
    qed (rule pl, rule it, rule q)
    then show ?thesis using 5 h by (simp add: process_node_def)
  next
    case 6
    then have q: "process_tuple_node (adjust_node re) path node d errs = (Inr v, errs)"
      using p h by (simp add: process_node_def)
    have "process_tuple_node (adjust_node re) path (reencode v) d errs = (Inr v, errs) \<and> v \<noteq> PNone"
    proof (rule process_tuple_node_idem)
      show "adjust_node re q (reencode u) s e = (Inr u, e)"
        if "size w < size node" "plain_schema s" "integral w" "adjust_node re q w s e = (Inr u, e)"
        for w q s e u
        using that by (rule ih)
    qed (rule pl, rule it, rule q)
    then show ?thesis using 6 h by (simp add: process_node_def)
  next
    case 7
    then have q: "process_map_node (adjust_node re) path node d errs = (Inr v, errs)"
      using p h by (simp add: process_node_def)
    have "process_map_node (adjust_node re) path (reencode v) d errs = (Inr v, errs) \<and> v \<noteq> PNone"
    proof (rule process_map_node_idem)
      show "adjust_node re q (reencode u) s e = (Inr u, e)"
        if "size w < size node" "plain_schema s" "integral w" "adjust_node re q w s e = (Inr u, e)"
        for w q s e u
        using that by (rule ih)
    qed (rule pl, rule it, rule q)
    then show ?thesis using 7 h by (simp add: process_node_def)
  next
    case 8
    then show ?thesis using p h by (simp add: process_node_def)
  qed
qed

lemma adjust_node_idem:
  "plain_schema specs \<Longrightarrow> integral node \<Longrightarrow> adjust_node re path node specs errs = (Inr v, errs)
   \<Longrightarrow> adjust_node re path (reencode v) specs errs = (Inr v, errs)"
proof (induction node arbitrary: path specs errs v rule: measure_induct_rule [of size])
  case (less node)
  show ?case
  proof (cases specs)
    case (PDict d)
    define opt where "opt = (case map_of d ''option'' of Some x \<Rightarrow> x | None \<Rightarrow> PBool False)"
    have unf: "adjust_node re path x (PDict d) errs =
        (if \<not> truthy opt \<and> x = PNone then (Inr PNone, errs @ [ValueError [path, ''value cant be null'']])
         else if truthy opt \<and> x = PNone then (Inr PNone, errs)
         else (case dgetitem d ''type'' of
                 Inl e \<Rightarrow> (Inl e, errs)
               | Inr kind \<Rightarrow> process_node (adjust_node re) re kind path x d errs))" for x
      by (subst adjust_node.simps) (simp add: opt_def Let_def)
    have first: "adjust_node re path node (PDict d) errs = (Inr v, errs)"
      using less.prems(3) PDict by simp
    show ?thesis
    proof (cases "node = PNone")
      case True
      then have "v = PNone" using first unfolding unf by (auto split: if_splits)
      then show ?thesis using first True PDict by simp
    next
      case False
      show ?thesis
      proof (cases "dgetitem d ''type''")
        case (Inl e)
        then show ?thesis using first False unfolding unf by simp
      next
        case (Inr kind)
        then have p: "process_node (adjust_node re) re kind path node d errs = (Inr v, errs)"
          using first False unfolding unf by simp
        show ?thesis
        proof (cases "kind = PStr ''decimal''")
          case True
          then have v: "v = PNone"
            using p by (simp add: process_node_def process_decimal_node_def)
          have "map_of d ''type'' = Some (PStr ''decimal'')"
            using Inr True by (simp add: dgetitem_def split: option.splits)
          then have "map_of d ''option'' = Some (PBool True)"
            using less.prems(1) PDict by simp
          then have "truthy opt" by (simp add: opt_def)
          then have "adjust_node re path (reencode v) (PDict d) errs = (Inr v, errs)"
            using v by (simp add: unf)
          then show ?thesis using PDict by simp
        next
          case nd: False
          have "process_node (adjust_node re) re kind path (reencode v) d errs = (Inr v, errs) \<and> v \<noteq> PNone"
          proof (rule process_node_idem)
            show "adjust_node re q (reencode u) s e = (Inr u, e)"
              if "size w < size node" "plain_schema s" "integral w" "adjust_node re q w s e = (Inr u, e)"
              for w q s e u
              using that by (rule less.IH)
            show "plain_schema (PDict d)" using less.prems(1) PDict by simp
          qed (rule less.prems(2), rule nd, rule p)
          then have "adjust_node re path (reencode v) (PDict d) errs = (Inr v, errs)"
            using Inr by (simp add: unf)
          then show ?thesis using PDict by simp
        qed
      qed
    qed
  qed (use less.prems(3) in \<open>subst (asm) adjust_node.simps, simp\<close>)+
qed

lemma document_to_object_adjusted:
  assumes "loads document = Inr D"
    and "document_to_object loads re_match document S errors_arg warnings_arg = (Inr v, [])"
  shows "adjust_node re_match ''root'' D S [] = (Inr v, [])"
    and "(errors_arg = None \<or> errors_arg = Some []) \<and> (warnings_arg = None \<or> warnings_arg = Some [])"
proof -
  obtain r1 e1 where w: "adjust_node re_match ''root'' D S [] = (r1, e1)"
    by (cases "adjust_node re_match ''root'' D S []")
  show "adjust_node re_match ''root'' D S [] = (Inr v, [])"
    using assms w by (cases r1) (auto simp: document_to_object_def split: if_splits)
  show "(errors_arg = None \<or> errors_arg = Some []) \<and> (warnings_arg = None \<or> warnings_arg = Some [])"
    using assms by (auto simp: document_to_object_def split: if_splits)
qed

text \<open>
  C4, as stated: when a document converts against a valid schema without an error, the
  adjusted value, encoded as a document again, converts against the same schema a second
  time without an error. It does not, at a decimal node and at a float with a fraction.
  The schema \<open>{type: decimal}\<close> is valid and the document \<open>1.5\<close> converts without an
  error, to \<open>None\<close>; \<open>None\<close> is encoded as \<open>null\<close>, and the second pass rejects a null
  where the node is not optional. The schema
  \<open>{type: integer, minimum: {value: 5, exclusive: true}}\<close> is valid and the document \<open>5.5\<close>
  converts without an error, to the integer 5; the second pass rejects 5, which is not
  above the minimum. The decoder of each example reads the two documents of the example.
\<close>

theorem reencoded_value_rejected_counterexample:
  "validate_specs hd (PDict [(''type'', PStr ''decimal'')]) (Some []) (Some [])
   = (Inr (), \<lparr>errors = [], warnings = []\<rparr>)
   \<and> document_to_object
       (\<lambda>document. if document = ''null'' then Inr PNone else Inr (PFloat (Finite (3 / 2))))
       (\<lambda>pattern s. Inr True) ''1.5'' (PDict [(''type'', PStr ''decimal'')]) (Some []) (Some [])
     = (Inr PNone, [])
   \<and> reencode PNone = PNone
   \<and> document_to_object
       (\<lambda>document. if document = ''null'' then Inr PNone else Inr (PFloat (Finite (3 / 2))))
       (\<lambda>pattern s. Inr True) ''null'' (PDict [(''type'', PStr ''decimal'')]) (Some []) (Some [])
     = (Inr PNone, [ValueError [''root'', ''value cant be null'']])
   \<and> validate_specs hd
       (PDict [(''type'', PStr ''integer''),
               (''minimum'', PDict [(''value'', PInt 5), (''exclusive'', PBool True)])])
       (Some []) (Some [])
     = (Inr (), \<lparr>errors = [], warnings = []\<rparr>)
   \<and> document_to_object
       (\<lambda>document. if document = ''5'' then Inr (PInt 5) else Inr (PFloat (Finite (11 / 2))))
       (\<lambda>pattern s. Inr True) ''5.5''
       (PDict [(''type'', PStr ''integer''),
               (''minimum'', PDict [(''value'', PInt 5), (''exclusive'', PBool True)])])
       (Some []) (Some [])
     = (Inr (PInt 5), [])
   \<and> reencode (PInt 5) = PInt 5
   \<and> document_to_object
       (\<lambda>document. if document = ''5'' then Inr (PInt 5) else Inr (PFloat (Finite (11 / 2))))
       (\<lambda>pattern s. Inr True) ''5''
       (PDict [(''type'', PStr ''integer''),
               (''minimum'', PDict [(''value'', PInt 5), (''exclusive'', PBool True)])])
       (Some []) (Some [])
     = (Inr PNone, [ValidationError ''root'' ''value must be strictly greater than X''])"
proof -
  have fl: "\<lfloor>11 / 2 :: rat\<rfloor> = 5"
    by (rule floor_unique) simp_all
  show ?thesis
    by (simp add: py_eval specs_eval document_eval fl)
qed

text \<open>
  C4, amended: for every schema whose decimal nodes are optional (tuple kinds are
  allowed), and every document whose floats have integer values, when \<open>document_to_object\<close> returns an
  adjusted value and records no error, then for the adjusted value encoded as a document
  again (a tuple written as an array) \<open>document_to_object\<close> returns the same adjusted
  value against the same schema and records no error. This holds in lazy and in
  fail-fast mode.
\<close>

theorem document_to_object_reencoded:
  assumes "plain_schema S" and "loads document = Inr D" and "integral D"
    and "document_to_object loads re_match document S errors_arg warnings_arg = (Inr v, [])"
    and "loads reencoded = Inr (reencode v)"
  shows "document_to_object loads re_match reencoded S errors_arg warnings_arg = (Inr v, [])"
proof -
  have a: "adjust_node re_match ''root'' D S [] = (Inr v, [])"
    using assms(2,4) by (rule document_to_object_adjusted(1))
  have m: "(errors_arg = None \<or> errors_arg = Some []) \<and> (warnings_arg = None \<or> warnings_arg = Some [])"
    using assms(2,4) by (rule document_to_object_adjusted(2))
  have "adjust_node re_match ''root'' (reencode v) S [] = (Inr v, [])"
    using assms(1,3) a by (rule adjust_node_idem)
  then show ?thesis
    using m assms(5) by (auto simp: document_to_object_def)
qed

theorem document_to_object_reencoded_witness:
  "document_to_object
     (\<lambda>document. if document = ''[[2, true], null, null]''
             then Inr (PList [PList [PInt 2, PBool True], PNone, PNone])
             else Inr (PList [PList [PFloat (Finite 2), PBool True], PNone, PInt 3]))
     (\<lambda>pattern s. Inr True) ''[[2, true], null, null]''
     (PDict [(''type'', PStr ''tuple''),
             (''values'',
              PList [PDict [(''type'', PStr ''tuple''),
                            (''values'', PList [PDict [(''type'', PStr ''integer''), (''minimum'', PInt 1)],
                                                PDict [(''type'', PStr ''flag'')]])],
                     PDict [(''type'', PStr ''string''), (''option'', PBool True)],
                     PDict [(''type'', PStr ''decimal''), (''option'', PBool True)]])])
     (Some []) (Some [])
   = (Inr (PTuple [PTuple [PInt 2, PBool True], PNone, PNone]), [])"
proof -
  let ?loads = "\<lambda>document. if document = ''[[2, true], null, null]''
             then Inr (PList [PList [PInt 2, PBool True], PNone, PNone])
             else Inr (PList [PList [PFloat (Finite 2), PBool True], PNone, PInt 3]) :: pyexc + pyval"
  let ?S = "PDict [(''type'', PStr ''tuple''),
             (''values'',
              PList [PDict [(''type'', PStr ''tuple''),
                            (''values'', PList [PDict [(''type'', PStr ''integer''), (''minimum'', PInt 1)],
                                                PDict [(''type'', PStr ''flag'')]])],
                     PDict [(''type'', PStr ''string''), (''option'', PBool True)],
                     PDict [(''type'', PStr ''decimal''), (''option'', PBool True)]])]"
  have P: "plain_schema ?S"
    by simp
  have L: "?loads ''[[2.0, true], null, 3]'' = Inr (PList [PList [PFloat (Finite 2), PBool True], PNone, PInt 3])"
    by simp
  have I: "integral (PList [PList [PFloat (Finite 2), PBool True], PNone, PInt 3])"
    by simp
  have R: "document_to_object ?loads (\<lambda>pattern s. Inr True) ''[[2.0, true], null, 3]'' ?S (Some []) (Some [])
           = (Inr (PTuple [PTuple [PInt 2, PBool True], PNone, PNone]), [])"
    by (simp add: py_eval document_eval)
  have L2: "?loads ''[[2, true], null, null]'' = Inr (reencode (PTuple [PTuple [PInt 2, PBool True], PNone, PNone]))"
    by simp
  show ?thesis by (rule document_to_object_reencoded [OF P L I R L2])
qed



section \<open>The validator and the grammar\<close>

lemmas grammar_eval =
  spec_grammar.simps spec_bounds_def spec_bound_def spec_bound_value_def spec_length_def
  spec_identifiers_def non_negative_def exceeds_def

text \<open>
  The two modes make the same walk. Whatever the lazy call gives, the fail-fast call on
  the same input gives it too, except that a walk that returns with errors recorded
  ends by raising the first of them. The same holds of \<open>document_to_object\<close>.
\<close>

lemma validate_specs_fail_fast_of_lazy:
  assumes "validate_specs pop S (Some []) (Some []) = (r, c)"
  shows "validate_specs pop S None None
         = (case r of
              Inl e \<Rightarrow> (Inl e, c)
            | Inr u \<Rightarrow> if length (errors c) > 0 then (Inl (errors c ! 0), c) else (Inr (), c))"
proof -
  obtain r1 c1 where w: "validate_root_block pop S \<lparr>errors = [], warnings = []\<rparr> = (r1, c1)"
    by (cases "validate_root_block pop S \<lparr>errors = [], warnings = []\<rparr>")
  show ?thesis
    using assms w by (cases r1) (auto simp: validate_specs_def)
qed

lemma document_to_object_fail_fast_of_lazy:
  assumes "document_to_object loads re_match document S (Some []) (Some []) = (r, errs)"
  shows "document_to_object loads re_match document S None None
         = (case r of
              Inl e \<Rightarrow> (Inl e, errs)
            | Inr v \<Rightarrow> if length errs > 0 then (Inl (errs ! 0), errs) else (Inr v, errs))"
proof (cases "loads document")
  case (Inl e)
  have "r = Inl e \<and> errs = []"
    using assms by (simp add: document_to_object_def Inl)
  then show ?thesis by (simp add: document_to_object_def Inl)
next
  case (Inr object)
  obtain r1 e1 where w: "adjust_node re_match ''root'' object S [] = (r1, e1)"
    by (cases "adjust_node re_match ''root'' object S []")
  show ?thesis
    using assms Inr w by (cases r1) (auto simp: document_to_object_def)
qed

text \<open>
  C1. The claim: in lazy mode \<open>validate_specs\<close> reports an error exactly when the schema
  violates the grammar, and fail-fast mode raises exactly then, with the first error of
  lazy mode. The code does not report every violation: it tests \<open>exclusive\<close>, and the
  bounds of a length, for truth before it checks their type, so a value that is false
  and of the wrong type goes unnoticed. With \<open>exclusive: 0\<close> (not a boolean) or
  \<open>length: {maximum: false}\<close> (not a number) the schema is outside the grammar, lazy mode
  reports no error and fail-fast mode returns normally. The same schema with
  \<open>exclusive: false\<close> is in the grammar.
\<close>

theorem validate_specs_accepts_invalid:
  "\<not> spec_grammar
       (PDict [(''type'', PStr ''integer''),
               (''minimum'', PDict [(''exclusive'', PInt 0), (''value'', PInt 1)])])
   \<and> validate_specs pop
       (PDict [(''type'', PStr ''integer''),
               (''minimum'', PDict [(''exclusive'', PInt 0), (''value'', PInt 1)])])
       (Some []) (Some [])
     = (Inr (), \<lparr>errors = [], warnings = []\<rparr>)
   \<and> validate_specs pop
       (PDict [(''type'', PStr ''integer''),
               (''minimum'', PDict [(''exclusive'', PInt 0), (''value'', PInt 1)])])
       None None
     = (Inr (), \<lparr>errors = [], warnings = []\<rparr>)
   \<and> \<not> spec_grammar
       (PDict [(''type'', PStr ''string''), (''length'', PDict [(''maximum'', PBool False)])])
   \<and> validate_specs pop
       (PDict [(''type'', PStr ''string''), (''length'', PDict [(''maximum'', PBool False)])])
       (Some []) (Some [])
     = (Inr (), \<lparr>errors = [], warnings = []\<rparr>)
   \<and> spec_grammar
       (PDict [(''type'', PStr ''integer''),
               (''minimum'', PDict [(''exclusive'', PBool False), (''value'', PInt 1)])])"
  by (simp add: grammar_eval py_eval specs_eval)

theorem validate_specs_accepts_invalid_witness:
  "validate_specs hd
       (PDict [(''type'', PStr ''integer''),
               (''minimum'', PDict [(''exclusive'', PInt 0), (''value'', PInt 1)])])
       (Some []) (Some [])
     = (Inr (), \<lparr>errors = [], warnings = []\<rparr>)"
  using validate_specs_accepts_invalid [of hd] by (rule conjunct2 [THEN conjunct1])


end
